theory Spec2Isabelle
  imports Complex_Main "HOL-Library.Sublist"
begin

section \<open>Batch chunker (geminiService, createChunks)\<close>

text \<open>
  JavaScript strings are sequences of code units; they are modelled as \<^typ>\<open>string\<close>
  (a list of characters), and \<open>.length\<close> is \<^const>\<open>length\<close>.  A paragraph of the shadow
  document carries an identifier and its text (the fields \<open>style\<close> and \<open>outline_level\<close> are
  kept, the chunker never reads them).
\<close>

record Paragraph =
  para_id :: string
  para_text :: string
  style :: string
  outline_level :: int

record ShadowDocument =
  filename :: string
  timestamp :: string
  paragraphs :: "Paragraph list"

definition dq :: char where
  "dq = CHR 0x22"

definition nl :: char where
  "nl = CHR 0x0A"

definition MAX_CHARS_PER_BATCH :: nat where
  "MAX_CHARS_PER_BATCH = 40000"

text \<open>The serialization of one paragraph, the template literal \<open>pText\<close> of the loop body.\<close>

definition pText :: "Paragraph \<Rightarrow> string" where
  "pText p = ''<<CLAUSE id='' @ [dq] @ para_id p @ [dq] @ ''>>'' @ [nl] @ para_text p @ [nl]
     @ ''<<END_CLAUSE>>'' @ [nl, nl]"

definition totalChars :: "Paragraph list \<Rightarrow> nat" where
  "totalChars ps = foldl (\<lambda>sum p. sum + length (para_text p)) 0 ps"

text \<open>
  \<open>avgBlockSize\<close> is the quotient \<open>totalChars / document.paragraphs.length\<close>.  With no paragraph
  it would be \<open>0 / 0\<close>, which is \<open>NaN\<close> in JavaScript: \<open>None\<close> here.  Both operands are integers
  below \<open>2^53\<close>, and the comparisons with 200 and 500 are done on the exact quotient (the
  correctly rounded double can differ from it in these comparisons only for more than \<open>2^32\<close>
  paragraphs, beyond the length of an array).
\<close>

definition avgBlockSize :: "Paragraph list \<Rightarrow> rat option" where
  "avgBlockSize ps =
     (if length ps = 0 then None else Some (of_nat (totalChars ps) / of_nat (length ps)))"

text \<open>Every comparison with \<open>NaN\<close> is false, which selects the last branch.\<close>

definition dynamicMaxClauses :: "rat option \<Rightarrow> nat" where
  "dynamicMaxClauses avg =
     (case avg of
        None \<Rightarrow> 18
      | Some a \<Rightarrow> if a < 200 then 50 else if a < 500 then 30 else 18)"

record chunk_state =
  chunks :: "string list"
  currentChunk :: string
  currentClauseCount :: nat

definition chunk_step :: "nat \<Rightarrow> chunk_state \<Rightarrow> Paragraph \<Rightarrow> chunk_state" where
  "chunk_step maxClauses s p =
     (let willExceedChars = length (currentChunk s) + length (pText p) > MAX_CHARS_PER_BATCH;
          willExceedClauses = currentClauseCount s + 1 > maxClauses;
          s1 = (if (willExceedChars \<or> willExceedClauses) \<and> length (currentChunk s) > 0
                then s\<lparr>chunks := chunks s @ [currentChunk s], currentChunk := [],
                       currentClauseCount := 0\<rparr>
                else s)
      in s1\<lparr>currentChunk := currentChunk s1 @ pText p,
             currentClauseCount := currentClauseCount s1 + 1\<rparr>)"

definition chunk_finish :: "chunk_state \<Rightarrow> string list" where
  "chunk_finish s = (if length (currentChunk s) > 0 then chunks s @ [currentChunk s] else chunks s)"

definition createChunks :: "ShadowDocument \<Rightarrow> string list" where
  "createChunks document =
     (if length (paragraphs document) = 0 then []
      else chunk_finish
             (foldl (chunk_step (dynamicMaxClauses (avgBlockSize (paragraphs document))))
                \<lparr>chunks = [], currentChunk = [], currentClauseCount = 0\<rparr>
                (paragraphs document)))"

section \<open>JavaScript string helpers\<close>

text \<open>
  Characters are the code units below 256.  \<open>isWhiteSpace\<close> is the class \<open>\s\<close> of the regular
  expressions and the set that \<open>trim\<close> strips; \<open>toLowerCase\<close> maps the upper-case letters of that
  range; \<open>str_includes\<close> is \<open>String.prototype.includes\<close>; \<open>String_of_nat\<close> is the decimal
  rendering of a length inside a template literal.
\<close>

definition isWhiteSpace :: "char \<Rightarrow> bool" where
  "isWhiteSpace c \<longleftrightarrow>
     c \<in> set [CHR 0x09, CHR 0x0A, CHR 0x0B, CHR 0x0C, CHR 0x0D, CHR 0x20, CHR 0xA0]"

definition trim :: "string \<Rightarrow> string" where
  "trim s = rev (dropWhile isWhiteSpace (rev (dropWhile isWhiteSpace s)))"

definition lowerChar :: "char \<Rightarrow> char" where
  "lowerChar c =
     (let n = (of_char c :: nat)
      in if (65 \<le> n \<and> n \<le> 90) \<or> (192 \<le> n \<and> n \<le> 222 \<and> n \<noteq> 215)
         then char_of (n + 32) else c)"

definition toLowerCase :: "string \<Rightarrow> string" where
  "toLowerCase s = map lowerChar s"

fun str_includes :: "string \<Rightarrow> string \<Rightarrow> bool" where
  "str_includes [] pat = (pat = [])"
| "str_includes (c # cs) pat = (prefix pat (c # cs) \<or> str_includes cs pat)"

fun String_of_nat :: "nat \<Rightarrow> string" where
  "String_of_nat n =
     (if n < 10 then [char_of (48 + n)]
      else String_of_nat (n div 10) @ [char_of (48 + n mod 10)])"

section \<open>Dispatch pipeline (geminiService, generateContentWithRetry and analyzeDocumentWithGemini)\<close>

datatype RiskLevel = GREEN | YELLOW | RED

record AnalysisFinding =
  target_id :: string
  risk_level :: RiskLevel
  issue_type :: string
  reasoning :: string
  suggested_text :: string
  original_text :: string
  finding_status :: "string option"

text \<open>
  What a run does besides returning its findings is recorded as a trace of events: every remote
  call (with its number in the run and the batch it carries), every backoff delay in
  milliseconds, the console output (also the editor's), and the progress messages of the loop.
\<close>

datatype event =
    RemoteCall nat string
  | Backoff rat
  | ConsoleWarn string
  | ConsoleError string
  | ConsoleLog string
  | ConsoleGroup string
  | ConsoleGroupEnd
  | SplittingInto nat
  | AnalyzingBatch nat nat

text \<open>
  An error thrown by the remote call: the fields the handler reads (\<open>status\<close>, \<open>code\<close>, and the
  message string \<open>e.message || e.toString() || ''\<close>).
\<close>

record api_error =
  err_status :: "int option"
  err_code :: "int option"
  err_message :: string

datatype outcome = Response "string option" | Failure api_error

text \<open>
  The collaborators of the pipeline, which are not part of the service file.  The text
  generation service answers the \<open>k\<close>-th remote call of a run, made for a given batch, with a
  response (whose \<open>text\<close> may be undefined) or with a thrown error.  \<open>maxScore\<close> is the value
  \<open>Math.max(...relevantCategories.map(c => c.score))\<close> of the local relevance pre-filter for a
  batch, \<open>None\<close> standing for \<open>-Infinity\<close> (no category matched).  \<open>parseFindings\<close> is
  \<open>mapIRToFindings(parseIR(text))\<close> of the IR parser module.
\<close>

record services =
  generateContent :: "nat \<Rightarrow> string \<Rightarrow> outcome"
  maxScore :: "string \<Rightarrow> int option"
  parseFindings :: "string \<Rightarrow> AnalysisFinding list"

record run_state =
  allFindings :: "AnalysisFinding list"
  seenIds :: "string set"
  seenTextHashes :: "string \<rightharpoonup> string"
  events :: "event list"
  calls :: nat

definition isRateLimit :: "api_error \<Rightarrow> bool" where
  "isRateLimit e \<longleftrightarrow>
     err_status e = Some 429 \<or> err_code e = Some 429 \<or> str_includes (err_message e) ''429''
     \<or> str_includes (err_message e) ''quota'' \<or> str_includes (err_message e) ''RESOURCE_EXHAUSTED''"

definition isServerError :: "api_error \<Rightarrow> bool" where
  "isServerError e \<longleftrightarrow> err_status e = Some 500 \<or> err_status e = Some 503 \<or> err_code e = Some 500"

text \<open>\<open>2000 * Math.pow(2, 3 - retries)\<close>; the exponent is negative when \<open>retries\<close> exceeds 3.\<close>

definition backoff :: "nat \<Rightarrow> rat" where
  "backoff retries = (if retries \<le> 3 then 2000 * 2 ^ (3 - retries) else 2000 / 2 ^ (retries - 3))"

definition emit :: "event list \<Rightarrow> run_state \<Rightarrow> run_state" where
  "emit es st = st\<lparr>events := events st @ es\<rparr>"

fun generateContentWithRetry ::
  "(nat \<Rightarrow> string \<Rightarrow> outcome) \<Rightarrow> string \<Rightarrow> nat \<Rightarrow> run_state \<Rightarrow> (api_error + string option) \<times> run_state"
where
  "generateContentWithRetry ai params retries st =
     (let st1 = (emit [RemoteCall (calls st) params] st)\<lparr>calls := calls st + 1\<rparr>
      in case ai (calls st) params of
           Response r \<Rightarrow> (Inr r, st1)
         | Failure e \<Rightarrow>
             if retries > 0 \<and> (isRateLimit e \<or> isServerError e)
             then generateContentWithRetry ai params (retries - 1)
                    (emit [ConsoleWarn ''Gemini API Error. Retrying...'', Backoff (backoff retries)] st1)
             else (Inl e, st1))"

declare generateContentWithRetry.simps [simp del]

definition textHash :: "AnalysisFinding \<Rightarrow> string" where
  "textHash f = take 100 (toLowerCase (trim (original_text f))) @ ''_''
     @ String_of_nat (length (original_text f))"

text \<open>Truthiness of the looked-up identifier: \<open>undefined\<close> and the empty string are falsy.\<close>

definition truthy :: "string option \<Rightarrow> bool" where
  "truthy v = (case v of None \<Rightarrow> False | Some s \<Rightarrow> s \<noteq> [])"

definition dedupe_step :: "run_state \<Rightarrow> AnalysisFinding \<Rightarrow> run_state" where
  "dedupe_step st f =
     (if target_id f \<in> seenIds st
      then emit [ConsoleWarn (''Skipping duplicate finding for ID: '' @ target_id f)] st
      else
        let existingIdForText = seenTextHashes st (textHash f)
        in if truthy existingIdForText \<and> existingIdForText \<noteq> Some (target_id f)
           then emit [ConsoleWarn (''Skipping duplicate finding with same content. Original ID: ''
                        @ the existingIdForText @ '', Duplicate ID: '' @ target_id f)] st
           else st\<lparr>seenIds := insert (target_id f) (seenIds st),
                   seenTextHashes := (seenTextHashes st)(textHash f \<mapsto> target_id f),
                   allFindings := allFindings st @ [f]\<rparr>)"

text \<open>Skip test of the relevance threshold, \<open>maxScore < 4\<close>.\<close>

definition lowRelevance :: "int option \<Rightarrow> bool" where
  "lowRelevance m = (case m of None \<Rightarrow> True | Some v \<Rightarrow> v < 4)"

text \<open>
  One iteration of the batch loop, for batch number \<open>i\<close> of \<open>n\<close>: the body of the \<open>try\<close> and its
  \<open>catch\<close>, which logs the error of the batch and lets the loop go on.
\<close>

definition analyzeBatch :: "services \<Rightarrow> nat \<Rightarrow> run_state \<Rightarrow> nat \<times> string \<Rightarrow> run_state" where
  "analyzeBatch sv n st ic =
     (case ic of (i, chunk) \<Rightarrow>
        let st0 = emit [AnalyzingBatch (i + 1) n] st
        in if lowRelevance (maxScore sv chunk)
           then emit [ConsoleLog (''Skipping batch '' @ String_of_nat i @ '' - low relevance score'')] st0
           else (case generateContentWithRetry (generateContent sv) chunk 3 st0 of
                   (Inl e, st1) \<Rightarrow>
                     emit [ConsoleError (''Batch '' @ String_of_nat i @ '' failed:'')] st1
                 | (Inr response, st1) \<Rightarrow>
                     let textResponse = (case response of None \<Rightarrow> [] | Some t \<Rightarrow> t)
                     in foldl dedupe_step st1 (parseFindings sv textResponse)))"

definition initial_run :: run_state where
  "initial_run = \<lparr>allFindings = [], seenIds = {}, seenTextHashes = Map.empty, events = [], calls = 0\<rparr>"

definition analyzeRun :: "services \<Rightarrow> ShadowDocument \<Rightarrow> run_state" where
  "analyzeRun sv document =
     (let chunks = createChunks document
      in foldl (analyzeBatch sv (length chunks)) (emit [SplittingInto (length chunks)] initial_run)
           (enumerate 0 chunks))"

definition analyzeDocumentWithGemini :: "services \<Rightarrow> ShadowDocument \<Rightarrow> AnalysisFinding list" where
  "analyzeDocumentWithGemini sv document = allFindings (analyzeRun sv document)"

section \<open>Playbook rule refinement records (geminiService, parseRuleIR)\<close>

record RiskCriteria =
  green :: string
  yellow :: string
  red :: string

record PlaybookRule =
  rule_id :: "string option"
  category :: "string option"
  subcategory :: "string option"
  topic :: string
  synonyms :: "string list option"
  signal_keywords :: "string list option"
  clause_number :: "string option"
  preferred_position :: string
  rule_reasoning :: string
  fallback_position :: "string option"
  suggested_drafting :: "string option"
  risk_criteria :: RiskCriteria

subsection \<open>The two regular expressions\<close>

text \<open>
  \<open>blockRegex\<close> is \<open>/<<RULE\s+id=["']([^"']+)["']\s*>>([\s\S]*?)<<END_RULE>>/g\<close>.  At a given start
  its header can match in one way only: each greedy run (\<open>\s+\<close>, \<open>[^"']+\<close>, \<open>\s*\<close>) is followed by
  a character outside its class, so giving characters back never helps; the lazy body ends at
  the first \<open><<END_RULE>>\<close>.  \<open>exec\<close> with the \<open>g\<close> flag returns the leftmost match at or after
  \<open>lastIndex\<close> and moves \<open>lastIndex\<close> to its end.
\<close>

definition isQuote :: "char \<Rightarrow> bool" where
  "isQuote c \<longleftrightarrow> c = CHR 0x22 \<or> c = CHR 0x27"

definition match_literal :: "string \<Rightarrow> string \<Rightarrow> string option" where
  "match_literal lit s = (if prefix lit s then Some (drop (length lit) s) else None)"

text \<open>The text before the first occurrence of a literal, and the text after it.\<close>

fun split_at :: "string \<Rightarrow> string \<Rightarrow> (string \<times> string) option" where
  "split_at lit [] = (if lit = [] then Some ([], []) else None)"
| "split_at lit (c # cs) =
     (if prefix lit (c # cs) then Some ([], drop (length lit) (c # cs))
      else map_option (\<lambda>(b, r). (c # b, r)) (split_at lit cs))"

definition matchRuleHeader :: "string \<Rightarrow> (string \<times> string) option" where
  "matchRuleHeader s =
     (case match_literal ''<<RULE'' s of
        None \<Rightarrow> None
      | Some s1 \<Rightarrow>
          if takeWhile isWhiteSpace s1 = [] then None
          else (case match_literal ''id='' (dropWhile isWhiteSpace s1) of
                  None \<Rightarrow> None
                | Some s2 \<Rightarrow>
                    (case s2 of
                       [] \<Rightarrow> None
                     | q # s3 \<Rightarrow>
                         if \<not> isQuote q \<or> takeWhile (\<lambda>c. \<not> isQuote c) s3 = [] then None
                         else (case dropWhile (\<lambda>c. \<not> isQuote c) s3 of
                                 [] \<Rightarrow> None
                               | q' # s4 \<Rightarrow>
                                   (case match_literal ''>>'' (dropWhile isWhiteSpace s4) of
                                      None \<Rightarrow> None
                                    | Some s5 \<Rightarrow>
                                        Some (takeWhile (\<lambda>c. \<not> isQuote c) s3, s5))))))"

text \<open>A match of \<open>blockRegex\<close> starting at the head of the text: identifier, body, and the rest.\<close>

definition matchRuleAt :: "string \<Rightarrow> (string \<times> string \<times> string) option" where
  "matchRuleAt s =
     (case matchRuleHeader s of
        None \<Rightarrow> None
      | Some (ident, s1) \<Rightarrow>
          (case split_at ''<<END_RULE>>'' s1 of
             None \<Rightarrow> None
           | Some (body, rest) \<Rightarrow> Some (ident, body, rest)))"

lemma match_literal_Some: "match_literal lit s = Some r \<Longrightarrow> s = lit @ r"
  by (auto simp add: match_literal_def prefix_def split: if_splits)

lemma split_at_Some: "split_at lit s = Some (b, r) \<Longrightarrow> s = b @ lit @ r"
  by (induction s arbitrary: b) (auto simp add: prefix_def split: if_splits)

lemma matchRuleHeader_shape:
  assumes "matchRuleHeader s = Some (ident, r)"
  shows "\<exists>ws q q' ws'. s = ''<<RULE'' @ ws @ ''id='' @ [q] @ ident @ [q'] @ ws' @ ''>>'' @ r
     \<and> ws \<noteq> [] \<and> (\<forall>c \<in> set ws. isWhiteSpace c) \<and> isQuote q \<and> isQuote q'
     \<and> ident \<noteq> [] \<and> (\<forall>c \<in> set ident. \<not> isQuote c) \<and> (\<forall>c \<in> set ws'. isWhiteSpace c)"
proof -
  from assms obtain s1 s2 q s3 q' s4 where
    1: "match_literal ''<<RULE'' s = Some s1" and ws: "takeWhile isWhiteSpace s1 \<noteq> []"
    and 2: "match_literal ''id='' (dropWhile isWhiteSpace s1) = Some s2"
    and 3: "s2 = q # s3" and q: "isQuote q"
    and id: "ident = takeWhile (\<lambda>c. \<not> isQuote c) s3" "ident \<noteq> []"
    and 4: "dropWhile (\<lambda>c. \<not> isQuote c) s3 = q' # s4"
    and 5: "match_literal ''>>'' (dropWhile isWhiteSpace s4) = Some r"
    by (auto simp add: matchRuleHeader_def split: option.splits if_splits list.splits)
  let ?ws = "takeWhile isWhiteSpace s1" and ?ws' = "takeWhile isWhiteSpace s4"
  have a: "s = ''<<RULE'' @ s1" using 1 by (rule match_literal_Some)
  have b: "s1 = ?ws @ ''id='' @ s2"
    using match_literal_Some[OF 2] takeWhile_dropWhile_id[of isWhiteSpace s1] by simp
  have c: "s3 = ident @ q' # s4"
    using 4 id(1) takeWhile_dropWhile_id[of "\<lambda>c. \<not> isQuote c" s3] by simp
  have d: "s4 = ?ws' @ ''>>'' @ r"
    using match_literal_Some[OF 5] takeWhile_dropWhile_id[of isWhiteSpace s4] by simp
  have q': "isQuote q'" using hd_dropWhile[of "\<lambda>c. \<not> isQuote c" s3] 4 by simp
  have "s = ''<<RULE'' @ ?ws @ ''id='' @ [q] @ ident @ [q'] @ ?ws' @ ''>>'' @ r"
    using a b c d 3 by simp
  moreover have "\<forall>c \<in> set ?ws. isWhiteSpace c" "\<forall>c \<in> set ?ws'. isWhiteSpace c"
    "\<forall>c \<in> set ident. \<not> isQuote c"
    using id(1) by (auto dest: set_takeWhileD)
  ultimately show ?thesis using ws q q' id(2) by blast
qed

lemma matchRuleHeader_length: "matchRuleHeader s = Some (ident, r) \<Longrightarrow> length r < length s"
  by (drule matchRuleHeader_shape) auto

lemma split_at_length: "split_at lit s = Some (b, r) \<Longrightarrow> length r \<le> length s"
  by (drule split_at_Some) simp

lemma matchRuleAt_length: "matchRuleAt s = Some (ident, body, r) \<Longrightarrow> length r < length s"
  by (auto simp add: matchRuleAt_def split: option.splits prod.splits
      dest!: matchRuleHeader_length split_at_length)

text \<open>The loop \<open>while ((match = blockRegex.exec(text)) !== null)\<close>: all matches, left to right.\<close>

function ruleBlocks :: "string \<Rightarrow> (string \<times> string) list" where
  "ruleBlocks [] = []"
| "ruleBlocks (c # cs) =
     (case matchRuleAt (c # cs) of
        Some (ident, body, rest) \<Rightarrow> (ident, body) # ruleBlocks rest
      | None \<Rightarrow> ruleBlocks cs)"
  by pat_completeness auto
termination
  by (relation "measure length") (auto dest: matchRuleAt_length)

text \<open>
  \<open>sectionRegex\<close> is \<open>\[KEY\]([\s\S]*?)(?=\[[A-Z_]+\]|$)\<close> with the flag \<open>i\<close>, and \<open>match\<close> returns its
  leftmost match.  With that flag an ASCII letter of the pattern matches both of its cases, and
  the class \<open>[A-Z_]\<close> the letters of both cases and the underscore.  The lazy group stops at the
  first position where a bracketed label starts, or at the end of the body.
\<close>

definition isUpperAscii :: "char \<Rightarrow> bool" where
  "isUpperAscii c \<longleftrightarrow> 65 \<le> (of_char c :: nat) \<and> (of_char c :: nat) \<le> 90"

definition isLowerAscii :: "char \<Rightarrow> bool" where
  "isLowerAscii c \<longleftrightarrow> 97 \<le> (of_char c :: nat) \<and> (of_char c :: nat) \<le> 122"

definition foldCase :: "char \<Rightarrow> char" where
  "foldCase c = (if isLowerAscii c then char_of ((of_char c :: nat) - 32) else c)"

fun ci_prefix :: "string \<Rightarrow> string \<Rightarrow> bool" where
  "ci_prefix [] s = True"
| "ci_prefix (p # ps) [] = False"
| "ci_prefix (p # ps) (c # cs) = (foldCase p = foldCase c \<and> ci_prefix ps cs)"

definition isLabelChar :: "char \<Rightarrow> bool" where
  "isLabelChar c \<longleftrightarrow> isUpperAscii c \<or> isLowerAscii c \<or> c = CHR ''_''"

definition labelAt :: "string \<Rightarrow> bool" where
  "labelAt s =
     (case s of
        [] \<Rightarrow> False
      | b # s1 \<Rightarrow>
          b = CHR ''['' \<and> takeWhile isLabelChar s1 \<noteq> []
          \<and> (case dropWhile isLabelChar s1 of [] \<Rightarrow> False | e # s2 \<Rightarrow> e = CHR '']''))"

fun sectionValue :: "string \<Rightarrow> string" where
  "sectionValue [] = []"
| "sectionValue (c # cs) = (if labelAt (c # cs) then [] else c # sectionValue cs)"

fun findSection :: "string \<Rightarrow> string \<Rightarrow> string option" where
  "findSection key [] = None"
| "findSection key (c # cs) =
     (if ci_prefix (''['' @ key @ '']'') (c # cs)
      then Some (sectionValue (drop (length key + 2) (c # cs)))
      else findSection key cs)"

text \<open>The helper \<open>extract\<close> of the loop body: \<open>m ? m[1].trim() : null\<close>.\<close>

definition extract_field :: "string \<Rightarrow> string \<Rightarrow> string option" where
  "extract_field body key = map_option trim (findSection key body)"

subsection \<open>parseRuleIR\<close>

text \<open>\<open>if (v) rule.field = v\<close>: the assignment happens for a non-empty string only.\<close>

definition applyRuleBody :: "PlaybookRule \<Rightarrow> string \<Rightarrow> PlaybookRule" where
  "applyRuleBody originalRule body =
     (let newRule = originalRule;
          topic' = extract_field body ''TOPIC'';
          newRule = (if truthy topic' then newRule\<lparr>topic := the topic'\<rparr> else newRule);
          category' = extract_field body ''CATEGORY'';
          newRule = (if truthy category' then newRule\<lparr>category := category'\<rparr> else newRule);
          preferred = extract_field body ''PREFERRED'';
          newRule = (if truthy preferred then newRule\<lparr>preferred_position := the preferred\<rparr> else newRule);
          reasoning' = extract_field body ''REASONING'';
          newRule = (if truthy reasoning' then newRule\<lparr>rule_reasoning := the reasoning'\<rparr> else newRule);
          fallback = extract_field body ''FALLBACK'';
          newRule = (if truthy fallback then newRule\<lparr>fallback_position := fallback\<rparr> else newRule);
          drafting = extract_field body ''DRAFTING'';
          newRule = (if truthy drafting then newRule\<lparr>suggested_drafting := drafting\<rparr> else newRule);
          red' = extract_field body ''RISK_RED'';
          yellow' = extract_field body ''RISK_YELLOW'';
          green' = extract_field body ''RISK_GREEN''
      in if truthy red' \<or> truthy yellow' \<or> truthy green'
         then newRule\<lparr>risk_criteria :=
                \<lparr>green = (if truthy green' then the green' else green (risk_criteria newRule)),
                 yellow = (if truthy yellow' then the yellow' else yellow (risk_criteria newRule)),
                 red = (if truthy red' then the red' else red (risk_criteria newRule))\<rparr>\<rparr>
         else newRule)"

definition parseRuleIR :: "string \<Rightarrow> PlaybookRule list \<Rightarrow> PlaybookRule list" where
  "parseRuleIR text originalRules =
     concat (map (\<lambda>(ident, body).
                    case find (\<lambda>r. rule_id r = Some ident) originalRules of
                      None \<Rightarrow> []
                    | Some originalRule \<Rightarrow> [applyRuleBody originalRule body])
                 (ruleBlocks text))"

section \<open>Position mapper and patch transaction builder (SuperdocEditor, updateClause)\<close>

subsection \<open>The editing engine at its boundary\<close>

text \<open>
  Modelled from the spec: the editing engine is a library outside the repository, and the
  interface section of the specification describes it as a position-addressed document with
  transactional \<open>delete(from, to)\<close> and \<open>insertText(pos, text)\<close>, traversal with stable node
  identity, and an atomic commit.  A document is the sequence of its positions, counted as the
  engine counts them.  A position holds a character of a text leaf, the opening or the closing
  of a node that can carry the attributes \<open>id\<close>, \<open>risk\<close> and \<open>status\<close>, or another structural
  position without text (the boundary of a run, an inline leaf).  The position of a node is
  the position of its opening, and its content starts one position later.
\<close>

record attrs =
  node_id :: "string option"
  risk :: "string option"
  status :: string

datatype token = Chr char | Struct | Open attrs | Close

datatype step = DeleteStep nat nat | InsertTextStep string nat | SetNodeMarkup nat attrs

record transaction =
  tr_doc :: "token list"
  steps :: "step list"

datatype engine_error = RangeError

text \<open>
  Modelled from the spec: the operations of a transaction.  Each one is applied to the document
  of the transaction as it stands after the earlier ones, and raises a range error for a
  position that is not a number (\<open>None\<close>) or lies outside the document.  An empty range and an
  empty text add no step.  The specification does not say what a range given backwards does;
  the engine that the source uses applies such a step, keeping the content before \<open>from\<close>
  followed by the content after \<open>to\<close>.
\<close>

definition tr_delete :: "transaction \<Rightarrow> int option \<Rightarrow> int option \<Rightarrow> engine_error + transaction" where
  "tr_delete t from to =
     (case (from, to) of
        (Some f, Some e) \<Rightarrow>
          if 0 \<le> f \<and> f \<le> int (length (tr_doc t)) \<and> 0 \<le> e \<and> e \<le> int (length (tr_doc t))
          then if f = e then Inr t
               else Inr \<lparr>tr_doc = take (nat f) (tr_doc t) @ drop (nat e) (tr_doc t),
                        steps = steps t @ [DeleteStep (nat f) (nat e)]\<rparr>
          else Inl RangeError
      | _ \<Rightarrow> Inl RangeError)"

definition tr_insertText :: "transaction \<Rightarrow> string \<Rightarrow> int \<Rightarrow> engine_error + transaction" where
  "tr_insertText t s pos =
     (if 0 \<le> pos \<and> pos \<le> int (length (tr_doc t))
      then if s = [] then Inr t
           else Inr \<lparr>tr_doc = take (nat pos) (tr_doc t) @ map Chr s @ drop (nat pos) (tr_doc t),
                    steps = steps t @ [InsertTextStep s (nat pos)]\<rparr>
      else Inl RangeError)"

text \<open>
  Modelled from the spec: \<open>doc.descendants(f)\<close> visits the nodes in document order and does not
  enter a node for which \<open>f\<close> returns \<open>false\<close>.  The state of the traversal is the position
  reached, the nesting depth inside a node that is not entered (0 outside), and the variable
  \<open>clausePos\<close> that the callback assigns.
\<close>

record scan_state =
  scan_pos :: nat
  scan_skip :: nat
  clausePos :: "nat option"

text \<open>
  The callback of \<open>updateClause\<close>: a node whose \<open>attrs.id\<close> is the clause identifier is recorded
  and not entered (\<open>return false\<close>); the traversal goes on after it, so a later node with the
  same identifier overwrites the variable.
\<close>

definition scan_step :: "string \<Rightarrow> scan_state \<Rightarrow> token \<Rightarrow> scan_state" where
  "scan_step clauseId s t =
     (case t of
        Open a \<Rightarrow>
          if scan_skip s > 0 then s\<lparr>scan_pos := scan_pos s + 1, scan_skip := scan_skip s + 1\<rparr>
          else if node_id a = Some clauseId
          then s\<lparr>scan_pos := scan_pos s + 1, scan_skip := 1, clausePos := Some (scan_pos s)\<rparr>
          else s\<lparr>scan_pos := scan_pos s + 1\<rparr>
      | Close \<Rightarrow> s\<lparr>scan_pos := scan_pos s + 1, scan_skip := scan_skip s - 1\<rparr>
      | _ \<Rightarrow> s\<lparr>scan_pos := scan_pos s + 1\<rparr>)"

definition locate :: "string \<Rightarrow> token list \<Rightarrow> nat option" where
  "locate clauseId d =
     clausePos (foldl (scan_step clauseId) \<lparr>scan_pos = 0, scan_skip = 0, clausePos = None\<rparr> d)"

text \<open>
  The content of a node, given the positions after its opening: everything up to the closing
  that matches it.
\<close>

fun contentOf :: "nat \<Rightarrow> token list \<Rightarrow> token list" where
  "contentOf d [] = []"
| "contentOf d (Close # ts) = (if d = 0 then [] else Close # contentOf (d - 1) ts)"
| "contentOf d (Open a # ts) = Open a # contentOf (Suc d) ts"
| "contentOf d (t # ts) = t # contentOf d ts"

definition nodeContent :: "token list \<Rightarrow> nat \<Rightarrow> token list" where
  "nodeContent d pos = contentOf 0 (drop (pos + 1) d)"

subsection \<open>The diff primitive\<close>

datatype diff_op = DIFF_DELETE | DIFF_INSERT | DIFF_EQUAL

record diff_part =
  part_op :: diff_op
  part_text :: string

subsection \<open>The editor and updateClause\<close>

text \<open>
  The editor object belongs to the SuperDoc library.  \<open>updateClause\<close> reads of it whether it is
  there, its document, and how the mode can be switched: by the function \<open>setDocumentMode\<close>,
  or else by the command \<open>trackChanges\<close>, or not at all.  Either call can throw; the calls are
  represented by their effect on the mode and on the tracking flag.
\<close>

datatype mode_api = SetDocumentMode | TrackChangesCommand | NoModeApi

record editor =
  ready :: bool
  doc :: "token list"
  modeApi :: mode_api
  modeSwitchThrows :: bool
  mode :: string
  trackChanges :: bool
  console :: "event list"
  dispatched :: "step list list"

text \<open>
  The position map: for every text leaf below the clause node, one entry per character with
  its absolute position, and the text appended to the buffer.  The first argument is the
  absolute position of the token at the head, \<open>clausePos + 1\<close> at the start of the content.
\<close>

fun buildPositionMap :: "nat \<Rightarrow> token list \<Rightarrow> nat list \<times> string" where
  "buildPositionMap absolutePos [] = ([], [])"
| "buildPositionMap absolutePos (Chr c # ts) =
     (case buildPositionMap (absolutePos + 1) ts of
        (positionMap, textBuffer) \<Rightarrow> (absolutePos # positionMap, c # textBuffer))"
| "buildPositionMap absolutePos (t # ts) = buildPositionMap (absolutePos + 1) ts"

text \<open>\<open>positionMap[i]\<close> for an integer index: \<open>undefined\<close> outside the array.\<close>

definition jsIndex :: "nat list \<Rightarrow> int \<Rightarrow> int option" where
  "jsIndex xs i = (if 0 \<le> i \<and> i < int (length xs) then Some (int (xs ! nat i)) else None)"

record build_state =
  tr :: transaction
  textIndex :: nat
  mapOffset :: int

text \<open>
  The body of \<open>diffs.forEach\<close>.  Arithmetic on \<open>undefined\<close> gives \<open>NaN\<close>, which the engine refuses,
  so the exception leaves the loop before the cursors are read again.
\<close>

definition apply_part :: "nat list \<Rightarrow> build_state \<Rightarrow> diff_part \<Rightarrow> engine_error + build_state" where
  "apply_part positionMap s part =
     (let token = part_text part
      in case part_op part of
           DIFF_EQUAL \<Rightarrow> Inr (s\<lparr>textIndex := textIndex s + length token\<rparr>)
         | DIFF_DELETE \<Rightarrow>
             let baseDocPos = jsIndex positionMap (int (textIndex s));
                 endTextIndex = min (int (textIndex s) + int (length token) - 1)
                                    (int (length positionMap) - 1);
                 baseEndDocPos = map_option (\<lambda>v. v + 1) (jsIndex positionMap endTextIndex);
                 actualDocPos = map_option (\<lambda>v. v + mapOffset s) baseDocPos;
                 actualEndDocPos = map_option (\<lambda>v. v + mapOffset s) baseEndDocPos
             in (case tr_delete (tr s) actualDocPos actualEndDocPos of
                   Inl e \<Rightarrow> Inl e
                 | Inr tr' \<Rightarrow>
                     Inr (s\<lparr>tr := tr',
                            mapOffset := mapOffset s - (the actualEndDocPos - the actualDocPos),
                            textIndex := textIndex s + length token\<rparr>))
         | DIFF_INSERT \<Rightarrow>
             let baseDocPos = (if textIndex s < length positionMap then positionMap ! textIndex s
                               else positionMap ! (length positionMap - 1) + 1);
                 actualDocPos = int baseDocPos + mapOffset s
             in (case tr_insertText (tr s) token actualDocPos of
                   Inl e \<Rightarrow> Inl e
                 | Inr tr' \<Rightarrow> Inr (s\<lparr>tr := tr', mapOffset := mapOffset s + int (length token)\<rparr>)))"

fun build :: "nat list \<Rightarrow> build_state \<Rightarrow> diff_part list \<Rightarrow> engine_error + build_state" where
  "build positionMap s [] = Inr s"
| "build positionMap s (part # parts) =
     (case apply_part positionMap s part of
        Inl e \<Rightarrow> Inl e
      | Inr s' \<Rightarrow> build positionMap s' parts)"

definition dispatch :: "transaction \<Rightarrow> editor \<Rightarrow> editor" where
  "dispatch t ed = ed\<lparr>doc := tr_doc t, dispatched := dispatched ed @ [steps t]\<rparr>"

definition logc :: "event list \<Rightarrow> editor \<Rightarrow> editor" where
  "logc es ed = ed\<lparr>console := console ed @ es\<rparr>"

text \<open>
  The \<open>try\<close> block that enables track changes, and its \<open>catch\<close>, which logs the error and lets
  the call go on.
\<close>

definition enableTrackChanges :: "editor \<Rightarrow> editor" where
  "enableTrackChanges ed =
     (case modeApi ed of
        SetDocumentMode \<Rightarrow>
          if modeSwitchThrows ed then logc [ConsoleError ''Track changes error:''] ed
          else ed\<lparr>mode := ''suggesting''\<rparr>
      | TrackChangesCommand \<Rightarrow>
          if modeSwitchThrows ed then logc [ConsoleError ''Track changes error:''] ed
          else ed\<lparr>trackChanges := True\<rparr>
      | NoModeApi \<Rightarrow> ed)"

text \<open>
  Modelled from the spec: \<open>setNodeMarkup(pos, undefined, attrs)\<close> replaces the attributes of the
  node at a position.
\<close>

definition tr_setNodeMarkup :: "transaction \<Rightarrow> nat \<Rightarrow> attrs \<Rightarrow> transaction" where
  "tr_setNodeMarkup t pos a =
     \<lparr>tr_doc = (tr_doc t)[pos := Open a], steps = steps t @ [SetNodeMarkup pos a]\<rparr>"

text \<open>\<open>finalState.doc.nodeAt(newPos).attrs\<close>; a position found by the traversal holds an opening.\<close>

definition attrsAt :: "token list \<Rightarrow> nat \<Rightarrow> attrs" where
  "attrsAt d pos = (case d ! pos of Open a \<Rightarrow> a | _ \<Rightarrow> \<lparr>node_id = None, risk = None, status = []\<rparr>)"

text \<open>
  \<open>updateClause\<close>, with the diff primitive \<open>calculateWordDiff\<close> of the module \<open>utils/diff\<close> as a
  parameter.  The result is the returned boolean, or the exception that leaves the function;
  the editor is returned as the call leaves it.  The attribution argument is not used.
\<close>

definition updateClause ::
  "(string \<Rightarrow> string \<Rightarrow> diff_part list) \<Rightarrow> editor \<Rightarrow> string \<Rightarrow> string \<Rightarrow> (engine_error + bool) \<times> editor"
where
  "updateClause calculateWordDiff ed clauseId newText =
     (if \<not> ready ed then (Inr False, ed)
      else
        let ed1 = logc [ConsoleGroup (''[Diffing] Update Block '' @ clauseId)] ed
        in case locate clauseId (doc ed1) of
             None \<Rightarrow>
               (Inr False,
                logc [ConsoleError (''Block node not found for ID: '' @ clauseId), ConsoleGroupEnd] ed1)
           | Some pos \<Rightarrow>
               let ed2 = enableTrackChanges ed1;
                   (positionMap, textBuffer) = buildPositionMap (pos + 1) (nodeContent (doc ed2) pos)
               in if length positionMap = 0
                  then (Inr False, logc [ConsoleError ''No text in block'', ConsoleGroupEnd] ed2)
                  else
                    let diffs = calculateWordDiff textBuffer newText
                    in case build positionMap
                              \<lparr>tr = \<lparr>tr_doc = doc ed2, steps = []\<rparr>, textIndex = 0, mapOffset = 0\<rparr>
                              diffs of
                         Inl e \<Rightarrow> (Inl e, ed2)
                       | Inr s \<Rightarrow>
                           let ed3 = dispatch (tr s) ed2
                           in (case locate clauseId (doc ed3) of
                                 None \<Rightarrow> (Inr True, logc [ConsoleGroupEnd] ed3)
                               | Some newPos \<Rightarrow>
                                   let finalTr = tr_setNodeMarkup \<lparr>tr_doc = doc ed3, steps = []\<rparr> newPos
                                                   ((attrsAt (doc ed3) newPos)\<lparr>status := ''pending''\<rparr>)
                                   in (Inr True, logc [ConsoleGroupEnd] (dispatch finalTr ed3))))"

section \<open>Auxiliary notions for the statements\<close>

text \<open>
  The average block text length of a document with at least one paragraph, as an exact
  quotient, and the block-count ceiling that the chunker uses for a document.
\<close>

definition averageLength :: "Paragraph list \<Rightarrow> rat" where
  "averageLength ps = of_nat (sum_list (map (\<lambda>p. length (para_text p)) ps)) / of_nat (length ps)"

definition ceilingOf :: "ShadowDocument \<Rightarrow> nat" where
  "ceilingOf d = dynamicMaxClauses (avgBlockSize (paragraphs d))"

definition serialize :: "Paragraph list \<Rightarrow> string" where
  "serialize g = concat (map pText g)"

definition overflows :: "nat \<Rightarrow> Paragraph list \<Rightarrow> Paragraph \<Rightarrow> bool" where
  "overflows M g p \<longleftrightarrow> length (serialize g) + length (pText p) > MAX_CHARS_PER_BATCH \<or> length g + 1 > M"

definition within_bounds :: "nat \<Rightarrow> Paragraph list \<Rightarrow> bool" where
  "within_bounds M g \<longleftrightarrow> length g \<le> M \<and> (length (serialize g) \<le> MAX_CHARS_PER_BATCH \<or> length g = 1)"

definition chunk_inv :: "nat \<Rightarrow> Paragraph list \<Rightarrow> chunk_state \<Rightarrow> Paragraph list list \<Rightarrow> Paragraph list \<Rightarrow> bool" where
  "chunk_inv M ps s ds c \<longleftrightarrow>
     chunks s = map serialize ds \<and> currentChunk s = serialize c \<and> currentClauseCount s = length c
     \<and> concat ds @ c = ps \<and> [] \<notin> set ds \<and> (c = [] \<longrightarrow> ds = [])
     \<and> (\<forall>g \<in> set (ds @ [c]). within_bounds M g)
     \<and> (\<forall>i. Suc i < length (ds @ [c]) \<longrightarrow> overflows M ((ds @ [c]) ! i) (hd ((ds @ [c]) ! Suc i)))"

text \<open>
  The two checks, read on the list of the findings accepted so far: a finding passes when no
  accepted finding has its identifier, and no accepted finding with a different, non-empty
  identifier has its content fingerprint.  A run keeps a finding exactly when it passes.
\<close>

definition passes :: "AnalysisFinding list \<Rightarrow> AnalysisFinding \<Rightarrow> bool" where
  "passes acc f \<longleftrightarrow>
     target_id f \<notin> set (map target_id acc)
     \<and> \<not> (\<exists>g \<in> set acc. textHash g = textHash f \<and> target_id g \<noteq> [] \<and> target_id g \<noteq> target_id f)"

definition keep_step :: "AnalysisFinding list \<Rightarrow> AnalysisFinding \<Rightarrow> AnalysisFinding list" where
  "keep_step acc f = (if passes acc f then acc @ [f] else acc)"

text \<open>
  The findings that the batches of a run hand to the two checks, in order: those parsed from
  the response of every batch that is neither skipped nor failed.
\<close>

definition offeredBatch :: "services \<Rightarrow> nat \<Rightarrow> run_state \<Rightarrow> nat \<times> string \<Rightarrow> AnalysisFinding list" where
  "offeredBatch sv n st ic =
     (if lowRelevance (maxScore sv (snd ic)) then []
      else case fst (generateContentWithRetry (generateContent sv) (snd ic) 3
                       (emit [AnalyzingBatch (fst ic + 1) n] st)) of
             Inl e \<Rightarrow> []
           | Inr response \<Rightarrow> parseFindings sv (case response of None \<Rightarrow> [] | Some t \<Rightarrow> t))"

fun offeredFrom :: "services \<Rightarrow> nat \<Rightarrow> run_state \<Rightarrow> (nat \<times> string) list \<Rightarrow> AnalysisFinding list" where
  "offeredFrom sv n st [] = []"
| "offeredFrom sv n st (ic # ics) = offeredBatch sv n st ic @ offeredFrom sv n (analyzeBatch sv n st ic) ics"

definition offered :: "services \<Rightarrow> ShadowDocument \<Rightarrow> AnalysisFinding list" where
  "offered sv document =
     offeredFrom sv (length (createChunks document))
       (emit [SplittingInto (length (createChunks document))] initial_run)
       (enumerate 0 (createChunks document))"

text \<open>
  The tracking tables agree with the accepted list: the identifiers seen are those accepted,
  every entry of the fingerprint table comes from an accepted finding, and every accepted
  finding with a non-empty identifier owns the entry of its fingerprint.
\<close>

definition dedupe_inv :: "run_state \<Rightarrow> bool" where
  "dedupe_inv st \<longleftrightarrow>
     seenIds st = set (map target_id (allFindings st))
     \<and> distinct (map target_id (allFindings st))
     \<and> (\<forall>h i. seenTextHashes st h = Some i \<longrightarrow>
           (\<exists>g \<in> set (allFindings st). textHash g = h \<and> target_id g = i))
     \<and> (\<forall>g \<in> set (allFindings st). target_id g \<noteq> [] \<longrightarrow>
           seenTextHashes st (textHash g) = Some (target_id g))"

definition accepts :: "run_state \<Rightarrow> AnalysisFinding \<Rightarrow> bool" where
  "accepts st f \<longleftrightarrow>
     target_id f \<notin> seenIds st
     \<and> \<not> (truthy (seenTextHashes st (textHash f)) \<and> seenTextHashes st (textHash f) \<noteq> Some (target_id f))"

definition after_call :: "string \<Rightarrow> run_state \<Rightarrow> run_state" where
  "after_call params st = (emit [RemoteCall (calls st) params] st)\<lparr>calls := calls st + 1\<rparr>"

definition transient :: "api_error \<Rightarrow> bool" where
  "transient e \<longleftrightarrow> isRateLimit e \<or> isServerError e"

fun retry_events :: "nat \<Rightarrow> string \<Rightarrow> nat \<Rightarrow> nat \<Rightarrow> event list" where
  "retry_events c p retries 0 = []"
| "retry_events c p retries (Suc 0) = [RemoteCall c p]"
| "retry_events c p retries (Suc (Suc n)) =
     [RemoteCall c p, ConsoleWarn ''Gemini API Error. Retrying...'', Backoff (backoff retries)]
     @ retry_events (Suc c) p (retries - 1) (Suc n)"

fun backoffs_of :: "event list \<Rightarrow> rat list" where
  "backoffs_of [] = []"
| "backoffs_of (Backoff ms # es) = ms # backoffs_of es"
| "backoffs_of (e # es) = backoffs_of es"

fun batch_marks :: "event list \<Rightarrow> (nat \<times> nat) list" where
  "batch_marks [] = []"
| "batch_marks (AnalyzingBatch i n # es) = (i, n) # batch_marks es"
| "batch_marks (e # es) = batch_marks es"

definition labelPresent :: "string \<Rightarrow> string \<Rightarrow> bool" where
  "labelPresent key body \<longleftrightarrow> (\<exists>pre post. body = pre @ post \<and> ci_prefix (''['' @ key @ '']'') post)"

definition orElse :: "string option \<Rightarrow> string \<Rightarrow> string" where
  "orElse v d = (if truthy v then the v else d)"

definition orElseOpt :: "string option \<Rightarrow> string option \<Rightarrow> string option" where
  "orElseOpt v d = (if truthy v then v else d)"

text \<open>
  A record of the generated text: a start marker with a quoted, non-empty identifier, the body,
  and the end marker, where the body runs to the first end marker after the start marker and
  so contains none.
\<close>

definition ruleRecordIn :: "string \<Rightarrow> string \<Rightarrow> string \<Rightarrow> bool" where
  "ruleRecordIn text ident body \<longleftrightarrow>
     (\<exists>pre ws q q' ws' post.
        text = pre @ ''<<RULE'' @ ws @ ''id='' @ [q] @ ident @ [q'] @ ws' @ ''>>'' @ body
                 @ ''<<END_RULE>>'' @ post
        \<and> ws \<noteq> [] \<and> (\<forall>c \<in> set ws. isWhiteSpace c) \<and> isQuote q \<and> isQuote q'
        \<and> ident \<noteq> [] \<and> (\<forall>c \<in> set ident. \<not> isQuote c) \<and> (\<forall>c \<in> set ws'. isWhiteSpace c)
        \<and> \<not> sublist ''<<END_RULE>>'' body)"


subsection \<open>Notions for the patch builder\<close>

text \<open>The extracted text of a content: the characters of its text leaves, in document order.\<close>

fun textOf :: "token list \<Rightarrow> string" where
  "textOf [] = []"
| "textOf (Chr c # ts) = c # textOf ts"
| "textOf (t # ts) = textOf ts"

text \<open>
  A text block: the content holds characters and structural positions only, and no node that
  carries attributes of its own.
\<close>

definition flat :: "token list \<Rightarrow> bool" where
  "flat ts \<longleftrightarrow> (\<forall>t \<in> set ts. t \<noteq> Close \<and> (\<forall>a. t \<noteq> Open a))"

text \<open>
  The insertion point of the builder for a text cursor: the mapped position, or one past the
  last mapped position when the cursor is past the end.
\<close>

definition boundary :: "nat list \<Rightarrow> nat \<Rightarrow> nat" where
  "boundary m ti = (if ti < length m then m ! ti else m ! (length m - 1) + 1)"

text \<open>The positions of the characters of a content, counted from its start.\<close>

definition chrPositions :: "token list \<Rightarrow> nat list" where
  "chrPositions ts = fst (buildPositionMap 0 ts)"

text \<open>The two texts that a list of diff segments describes.\<close>

fun original_of :: "diff_part list \<Rightarrow> string" where
  "original_of [] = []"
| "original_of (p # ps) = (if part_op p = DIFF_INSERT then [] else part_text p) @ original_of ps"

fun proposed_of :: "diff_part list \<Rightarrow> string" where
  "proposed_of [] = []"
| "proposed_of (p # ps) = (if part_op p = DIFF_DELETE then [] else part_text p) @ proposed_of ps"

text \<open>
  Modelled from the spec: the module \<open>utils/diff\<close> with \<open>calculateWordDiff\<close> is missing from the
  sources.  The data model gives the invariant of its result: concatenating the tokens of the
  segments that are not INSERT yields the original text, and concatenating those that are not
  DELETE yields the proposed text.
\<close>

definition validDiff :: "string \<Rightarrow> string \<Rightarrow> diff_part list \<Rightarrow> bool" where
  "validDiff original proposed ds \<longleftrightarrow> original_of ds = original \<and> proposed_of ds = proposed"

text \<open>A list of diff segments in which every deletion removes at least one character.\<close>

definition noEmptyDelete :: "diff_part list \<Rightarrow> bool" where
  "noEmptyDelete ds \<longleftrightarrow> (\<forall>d \<in> set ds. part_op d = DIFF_DELETE \<longrightarrow> part_text d \<noteq> [])"

text \<open>
  The invariant of the loop over the diff segments, for a document \<open>A @ C @ R\<close> whose block
  content is \<open>C\<close>: the transaction document is \<open>A @ X @ R\<close>, the part of \<open>X\<close> before the cursor
  \<open>x\<close> holds the text emitted so far, the part after it is the part of \<open>C\<close> not yet visited, and
  the running offset is the distance between the two cursors.
\<close>

definition synced :: "token list \<Rightarrow> token list \<Rightarrow> token list \<Rightarrow> build_state \<Rightarrow> string \<Rightarrow> bool" where
  "synced A C R s emitted \<longleftrightarrow>
     (\<exists>X x. tr_doc (tr s) = A @ X @ R
        \<and> textIndex s \<le> length (textOf C)
        \<and> mapOffset s = int x - int (boundary (chrPositions C) (textIndex s))
        \<and> x \<le> length X
        \<and> drop x X = drop (boundary (chrPositions C) (textIndex s)) C
        \<and> textOf (take x X) = emitted
        \<and> (flat C \<longrightarrow> flat X))"

text \<open>The state in which \<open>updateClause\<close> starts the loop: a fresh transaction and both cursors at 0.\<close>

definition initial_build :: "token list \<Rightarrow> build_state" where
  "initial_build d = \<lparr>tr = \<lparr>tr_doc = d, steps = []\<rparr>, textIndex = 0, mapOffset = 0\<rparr>"

definition isTextEdit :: "step \<Rightarrow> bool" where
  "isTextEdit st = (case st of SetNodeMarkup p a \<Rightarrow> False | _ \<Rightarrow> True)"

text \<open>What the switch to track changes writes to the console: the error of its \<open>catch\<close>, if any.\<close>

definition trackChangesErrors :: "editor \<Rightarrow> event list" where
  "trackChangesErrors ed =
     (if modeApi ed \<noteq> NoModeApi \<and> modeSwitchThrows ed then [ConsoleError ''Track changes error:'']
      else [])"

text \<open>The warnings and errors written to the console.\<close>

definition isWarning :: "event \<Rightarrow> bool" where
  "isWarning ev = (case ev of ConsoleWarn m \<Rightarrow> True | ConsoleError m \<Rightarrow> True | _ \<Rightarrow> False)"

definition warnings :: "event list \<Rightarrow> event list" where
  "warnings es = filter isWarning es"

section \<open>Concrete inputs\<close>

definition mkPara :: "string \<Rightarrow> string \<Rightarrow> Paragraph" where
  "mkPara i t = \<lparr>para_id = i, para_text = t, style = ''Normal'', outline_level = 0\<rparr>"

definition mkDoc :: "Paragraph list \<Rightarrow> ShadowDocument" where
  "mkDoc ps = \<lparr>filename = ''Test_Doc.docx'', timestamp = [], paragraphs = ps\<rparr>"

definition big_doc :: ShadowDocument where
  "big_doc = mkDoc [mkPara ''a'' (replicate 30000 (CHR ''x'')), mkPara ''b'' (replicate 30000 (CHR ''y''))]"

text \<open>Nineteen paragraphs of 500 characters each: the average is 500 and the ceiling 18.\<close>

definition long_para :: Paragraph where
  "long_para = mkPara ''n'' (replicate 500 (CHR ''z''))"

definition long_doc :: ShadowDocument where
  "long_doc = mkDoc (replicate 19 long_para)"

definition cx_A :: AnalysisFinding where
  "cx_A = \<lparr>target_id = ''A'', risk_level = RED, issue_type = ''Uncapped Liability'', reasoning = ''r'',
     suggested_text = ''s'', original_text = ''Same text'', finding_status = None\<rparr>"

definition cx_B1 :: AnalysisFinding where
  "cx_B1 = cx_A\<lparr>target_id := ''B''\<rparr>"

definition cx_B2 :: AnalysisFinding where
  "cx_B2 = cx_B1\<lparr>original_text := ''Other''\<rparr>"

definition cx_services :: services where
  "cx_services = \<lparr>generateContent = (\<lambda>k c. Response (Some ''out'')), maxScore = (\<lambda>c. Some 5),
     parseFindings = (\<lambda>t. [cx_A, cx_B1, cx_B2])\<rparr>"

definition cx_doc :: ShadowDocument where
  "cx_doc = mkDoc [mkPara ''p1'' ''Same text'']"

definition ex_empty_id :: AnalysisFinding where
  "ex_empty_id = cx_A\<lparr>target_id := []\<rparr>"

text \<open>A service whose response parses to a finding with the empty identifier, then \<open>B\<close>.\<close>

definition cx_services_empty :: services where
  "cx_services_empty = \<lparr>generateContent = (\<lambda>k c. Response (Some ''out'')), maxScore = (\<lambda>c. Some 5),
     parseFindings = (\<lambda>t. [ex_empty_id, cx_B1])\<rparr>"

definition e429 :: api_error where
  "e429 = \<lparr>err_status = Some 429, err_code = None, err_message = ''Too Many Requests''\<rparr>"

definition e400 :: api_error where
  "e400 = \<lparr>err_status = Some 400, err_code = None, err_message = ''Bad Request''\<rparr>"

text \<open>A service whose first four calls are rate-limited and which answers from the fifth on.\<close>

definition flaky_services :: services where
  "flaky_services = \<lparr>generateContent = (\<lambda>k c. if k < 4 then Failure e429 else Response (Some ''out'')),
     maxScore = (\<lambda>c. Some 5), parseFindings = (\<lambda>t. [cx_A, cx_B1, cx_B2])\<rparr>"

definition rule1 :: PlaybookRule where
  "rule1 = \<lparr>rule_id = Some ''R1'', category = Some ''LIABILITY'', subcategory = None, topic = ''Liability Cap'',
     synonyms = None, signal_keywords = Some [''liability''], clause_number = None,
     preferred_position = ''Cap at 12 months fees'', rule_reasoning = ''Limits exposure'',
     fallback_position = None, suggested_drafting = None,
     risk_criteria = \<lparr>green = ''capped'', yellow = ''high cap'', red = ''uncapped''\<rparr>\<rparr>"

text \<open>
  Two records: the first updates the topic of rule \<open>R1\<close>, the second carries a preferred position
  for an identifier that no original rule has.
\<close>

definition update_text :: string where
  "update_text = ''<<RULE id='' @ [dq] @ ''R1'' @ [dq] @ ''>>[TOPIC] Cap<<END_RULE>>''
     @ ''<<RULE id='' @ [dq] @ ''R2'' @ [dq] @ ''>>[PREFERRED] Other<<END_RULE>>''"

definition rule1_updated :: PlaybookRule where
  "rule1_updated = rule1\<lparr>topic := ''Cap''\<rparr>"


subsection \<open>Documents for the patch builder\<close>

definition clause_attrs :: attrs where
  "clause_attrs = \<lparr>node_id = Some ''c1'', risk = Some ''red'', status = ''original''\<rparr>"

definition other_attrs :: attrs where
  "other_attrs = \<lparr>node_id = Some ''c2'', risk = None, status = ''original''\<rparr>"

text \<open>
  A paragraph \<open>c1\<close> made of two runs, \<open>Liability is\<close> and \<open>unlimited.\<close>, followed by a paragraph
  \<open>c2\<close>; the structural positions are the boundaries of the runs.
\<close>

definition liability_doc :: "token list" where
  "liability_doc =
     [Open clause_attrs, Struct] @ map Chr ''Liability is '' @ [Struct, Struct]
     @ map Chr ''unlimited.'' @ [Struct, Close, Open other_attrs, Struct, Chr (CHR ''x''), Struct, Close]"

definition liability_editor :: editor where
  "liability_editor =
     \<lparr>ready = True, doc = liability_doc, modeApi = SetDocumentMode, modeSwitchThrows = False,
       mode = ''editing'', trackChanges = False, console = [], dispatched = []\<rparr>"

definition liability_diff :: "string \<Rightarrow> string \<Rightarrow> diff_part list" where
  "liability_diff a b =
     [\<lparr>part_op = DIFF_EQUAL, part_text = ''Liability is ''\<rparr>,
      \<lparr>part_op = DIFF_DELETE, part_text = ''unlimited.''\<rparr>,
      \<lparr>part_op = DIFF_INSERT, part_text = ''capped at fees paid.''\<rparr>]"

text \<open>The texts of the clause before and after the edit.\<close>

definition capped :: string where
  "capped = ''Liability is capped at fees paid.''"

definition unlimited :: string where
  "unlimited = ''Liability is unlimited.''"

text \<open>A block \<open>c1\<close> without text leaves.\<close>

definition heading_doc :: "token list" where
  "heading_doc =
     [Open clause_attrs, Struct, Struct, Close, Open other_attrs, Struct, Chr (CHR ''x''), Struct, Close]"

definition heading_editor :: editor where
  "heading_editor =
     \<lparr>ready = True, doc = heading_doc, modeApi = SetDocumentMode, modeSwitchThrows = False,
       mode = ''editing'', trackChanges = False, console = [], dispatched = []\<rparr>"

text \<open>
  A diff that does not cover the text of the block: its segments account for 13 of the 23
  characters of the original.
\<close>

definition stale_diff :: "string \<Rightarrow> string \<Rightarrow> diff_part list" where
  "stale_diff a b =
     [\<lparr>part_op = DIFF_EQUAL, part_text = ''Liability is ''\<rparr>,
      \<lparr>part_op = DIFF_INSERT, part_text = ''not ''\<rparr>]"

text \<open>
  A diff that runs past the text of the block: its deletion starts at character 23, which the
  position map does not hold.
\<close>

definition overrun_diff :: "string \<Rightarrow> string \<Rightarrow> diff_part list" where
  "overrun_diff a b =
     [\<lparr>part_op = DIFF_EQUAL, part_text = ''Liability is unlimited.''\<rparr>,
      \<lparr>part_op = DIFF_DELETE, part_text = ''x''\<rparr>]"

text \<open>The same editor when the switch to track changes throws.\<close>

definition faulty_editor :: editor where
  "faulty_editor = liability_editor\<lparr>modeSwitchThrows := True\<rparr>"








section \<open>Properties of the chunker and of the dispatch pipeline\<close>

lemma pText_nonempty: "pText p \<noteq> []"
  by (simp add: pText_def)

lemma serialize_Nil_iff: "serialize g = [] \<longleftrightarrow> g = []"
  by (cases g) (simp_all add: serialize_def pText_nonempty)

lemma serialize_snoc: "serialize (g @ [p]) = serialize g @ pText p"
  by (simp add: serialize_def)

lemma chunk_inv_init: "chunk_inv M [] \<lparr>chunks = [], currentChunk = [], currentClauseCount = 0\<rparr> [] []"
  by (simp add: chunk_inv_def serialize_def within_bounds_def)

lemma chunk_invD:
  assumes "chunk_inv M ps s ds c"
  shows "chunks s = map serialize ds" "currentChunk s = serialize c" "currentClauseCount s = length c"
    "concat ds @ c = ps" "[] \<notin> set ds" "c = [] \<Longrightarrow> ds = []"
    "\<And>g. g \<in> set ds \<Longrightarrow> within_bounds M g" "within_bounds M c"
    "\<And>i. Suc i < length (ds @ [c]) \<Longrightarrow> overflows M ((ds @ [c]) ! i) (hd ((ds @ [c]) ! Suc i))"
  using assms by (simp_all add: chunk_inv_def)

lemma chunk_step_flush:
  assumes "chunk_inv M ps s ds c" "overflows M c p" "c \<noteq> []"
  shows "chunk_step M s p = \<lparr>chunks = map serialize (ds @ [c]), currentChunk = serialize [p],
           currentClauseCount = length [p]\<rparr>"
proof -
  have "currentChunk s \<noteq> []"
    using assms(3) chunk_invD(2)[OF assms(1)] by (simp add: serialize_Nil_iff)
  moreover have "serialize [p] = pText p" by (simp add: serialize_def)
  ultimately show ?thesis
    using assms(2) chunk_invD(1-3)[OF assms(1)]
    by (simp add: chunk_step_def Let_def overflows_def)
qed

lemma chunk_step_keep:
  assumes "chunk_inv M ps s ds c" "\<not> (overflows M c p \<and> c \<noteq> [])"
  shows "chunk_step M s p = \<lparr>chunks = map serialize ds, currentChunk = serialize (c @ [p]),
           currentClauseCount = length (c @ [p])\<rparr>"
  using assms chunk_invD(1-3)[OF assms(1)]
  by (auto simp add: chunk_step_def Let_def overflows_def serialize_Nil_iff serialize_snoc)

lemma chunk_inv_step:
  assumes M: "1 \<le> M" and inv: "chunk_inv M ps s ds c"
  shows "\<exists>ds' c'. chunk_inv M (ps @ [p]) (chunk_step M s p) ds' c'"
proof (cases "overflows M c p \<and> c \<noteq> []")
  case True
  note D = chunk_invD[OF inv]
  have bounds: "\<forall>g \<in> set ((ds @ [c]) @ [[p]]). within_bounds M g"
    using D(7,8) M by (auto simp: within_bounds_def)
  have greedy: "\<forall>i. Suc i < length ((ds @ [c]) @ [[p]]) \<longrightarrow>
      overflows M (((ds @ [c]) @ [[p]]) ! i) (hd (((ds @ [c]) @ [[p]]) ! Suc i))"
  proof (intro allI impI)
    fix i assume i: "Suc i < length ((ds @ [c]) @ [[p]])"
    show "overflows M (((ds @ [c]) @ [[p]]) ! i) (hd (((ds @ [c]) @ [[p]]) ! Suc i))"
    proof (cases "Suc i < length (ds @ [c])")
      case True
      then have "i < length ds" "Suc i < length ds \<or> Suc i = length ds" by auto
      then show ?thesis using D(9)[of i] True by (auto simp add: nth_append)
    next
      case False
      with i have "i = length ds" by simp
      then show ?thesis using \<open>overflows M c p \<and> c \<noteq> []\<close> by (simp add: nth_append)
    qed
  qed
  have "chunk_inv M (ps @ [p]) (chunk_step M s p) (ds @ [c]) [p]"
    unfolding chunk_inv_def chunk_step_flush[OF inv conjunct1[OF True] conjunct2[OF True]]
    using D(4,5) True bounds greedy by auto
  then show ?thesis by blast
next
  case False
  note D = chunk_invD[OF inv]
  have wb: "within_bounds M (c @ [p])"
  proof (cases "c = []")
    case True
    then show ?thesis using M by (simp add: within_bounds_def)
  next
    case False
    with \<open>\<not> (overflows M c p \<and> c \<noteq> [])\<close> have "\<not> overflows M c p" by simp
    then show ?thesis by (simp add: within_bounds_def overflows_def serialize_snoc)
  qed
  have greedy: "\<forall>i. Suc i < length (ds @ [c @ [p]]) \<longrightarrow>
      overflows M ((ds @ [c @ [p]]) ! i) (hd ((ds @ [c @ [p]]) ! Suc i))"
  proof (intro allI impI)
    fix i assume i: "Suc i < length (ds @ [c @ [p]])"
    then have ds: "ds \<noteq> []" by auto
    then have c: "c \<noteq> []" using D(6) by blast
    have "overflows M ((ds @ [c]) ! i) (hd ((ds @ [c]) ! Suc i))"
      using D(9)[of i] i by simp
    then show "overflows M ((ds @ [c @ [p]]) ! i) (hd ((ds @ [c @ [p]]) ! Suc i))"
      using i c by (auto simp add: nth_append split: if_splits)
  qed
  have "chunk_inv M (ps @ [p]) (chunk_step M s p) ds (c @ [p])"
    unfolding chunk_inv_def chunk_step_keep[OF inv False]
    using D(4,5,7) wb greedy by auto
  then show ?thesis by blast
qed

lemma chunk_inv_foldl:
  assumes "1 \<le> M"
  shows "\<exists>ds c. chunk_inv M ps (foldl (chunk_step M) \<lparr>chunks = [], currentChunk = [], currentClauseCount = 0\<rparr> ps) ds c"
proof (induction ps rule: rev_induct)
  case Nil
  show ?case using chunk_inv_init by auto
next
  case (snoc p ps)
  then show ?case using chunk_inv_step[OF assms] by auto
qed

lemma emit_simps [simp]:
  "allFindings (emit es st) = allFindings st" "seenIds (emit es st) = seenIds st"
  "seenTextHashes (emit es st) = seenTextHashes st" "events (emit es st) = events st @ es"
  "calls (emit es st) = calls st"
  by (simp_all add: emit_def)

lemma dedupe_inv_initial: "dedupe_inv initial_run"
  by (simp add: dedupe_inv_def initial_run_def)

lemma dedupe_inv_emit: "dedupe_inv (emit es st) = dedupe_inv st"
  by (simp add: dedupe_inv_def)

lemma dedupe_step_accept:
  "accepts st f \<Longrightarrow>
     dedupe_step st f = st\<lparr>seenIds := insert (target_id f) (seenIds st),
                   seenTextHashes := (seenTextHashes st)(textHash f \<mapsto> target_id f),
                   allFindings := allFindings st @ [f]\<rparr>"
  by (auto simp add: accepts_def dedupe_step_def Let_def)

lemma dedupe_step_reject:
  "\<not> accepts st f \<Longrightarrow> \<exists>m. dedupe_step st f = emit [ConsoleWarn m] st"
  by (auto simp add: accepts_def dedupe_step_def Let_def)

lemma accepts_iff_passes:
  assumes inv: "dedupe_inv st"
  shows "accepts st f \<longleftrightarrow> passes (allFindings st) f"
proof -
  let ?all = "allFindings st" and ?m = "seenTextHashes st"
  from inv have ids: "seenIds st = set (map target_id ?all)"
    and src: "\<And>h i. ?m h = Some i \<Longrightarrow> \<exists>g \<in> set ?all. textHash g = h \<and> target_id g = i"
    and own: "\<And>g. g \<in> set ?all \<Longrightarrow> target_id g \<noteq> [] \<Longrightarrow> ?m (textHash g) = Some (target_id g)"
    by (simp_all add: dedupe_inv_def)
  have "(truthy (?m (textHash f)) \<and> ?m (textHash f) \<noteq> Some (target_id f))
      \<longleftrightarrow> (\<exists>g \<in> set ?all. textHash g = textHash f \<and> target_id g \<noteq> [] \<and> target_id g \<noteq> target_id f)"
  proof
    assume a: "truthy (?m (textHash f)) \<and> ?m (textHash f) \<noteq> Some (target_id f)"
    then obtain i where i: "?m (textHash f) = Some i" "i \<noteq> []" "i \<noteq> target_id f"
      by (auto simp add: truthy_def split: option.splits)
    from src[OF i(1)] i(2,3) show "\<exists>g \<in> set ?all. textHash g = textHash f \<and> target_id g \<noteq> []
        \<and> target_id g \<noteq> target_id f"
      by auto
  next
    assume "\<exists>g \<in> set ?all. textHash g = textHash f \<and> target_id g \<noteq> [] \<and> target_id g \<noteq> target_id f"
    then obtain g where g: "g \<in> set ?all" "textHash g = textHash f" "target_id g \<noteq> []"
      "target_id g \<noteq> target_id f"
      by blast
    from own[OF g(1,3)] g(2) have "?m (textHash f) = Some (target_id g)" by simp
    with g(3,4) show "truthy (?m (textHash f)) \<and> ?m (textHash f) \<noteq> Some (target_id f)"
      by (simp add: truthy_def)
  qed
  then show ?thesis by (simp add: accepts_def passes_def ids)
qed

lemma dedupe_step_inv:
  assumes inv: "dedupe_inv st"
  shows "dedupe_inv (dedupe_step st f)"
proof (cases "accepts st f")
  case False
  then obtain m where "dedupe_step st f = emit [ConsoleWarn m] st"
    using dedupe_step_reject by blast
  then show ?thesis using inv by (simp add: dedupe_inv_emit)
next
  case True
  let ?all = "allFindings st" and ?m = "seenTextHashes st"
  from inv have ids: "seenIds st = set (map target_id ?all)"
    and dist: "distinct (map target_id ?all)"
    and src: "\<And>h i. ?m h = Some i \<Longrightarrow> \<exists>g \<in> set ?all. textHash g = h \<and> target_id g = i"
    and own: "\<And>g. g \<in> set ?all \<Longrightarrow> target_id g \<noteq> [] \<Longrightarrow> ?m (textHash g) = Some (target_id g)"
    by (simp_all add: dedupe_inv_def)
  from True have fresh: "target_id f \<notin> seenIds st"
    and pass: "\<not> (truthy (?m (textHash f)) \<and> ?m (textHash f) \<noteq> Some (target_id f))"
    by (simp_all add: accepts_def)
  have new_src: "\<exists>g \<in> set (?all @ [f]). textHash g = h \<and> target_id g = i"
    if "(?m(textHash f \<mapsto> target_id f)) h = Some i" for h i
  proof (cases "h = textHash f")
    case True
    with that show ?thesis by simp
  next
    case False
    with that have "?m h = Some i" by simp
    from src[OF this] show ?thesis by auto
  qed
  have new_own: "(?m(textHash f \<mapsto> target_id f)) (textHash g) = Some (target_id g)"
    if g: "g \<in> set (?all @ [f])" and ne: "target_id g \<noteq> []" for g
  proof (cases "g \<in> set ?all")
    case False
    with g have "g = f" by simp
    then show ?thesis by simp
  next
    case True
    from own[OF True ne] have old: "?m (textHash g) = Some (target_id g)" .
    have "textHash g \<noteq> textHash f"
    proof
      assume eq: "textHash g = textHash f"
      with old ne have "truthy (?m (textHash f))" by (simp add: truthy_def)
      with pass have "?m (textHash f) = Some (target_id f)" by blast
      with old eq have "target_id f = target_id g" by simp
      with True ids fresh show False by auto
    qed
    with old show ?thesis by simp
  qed
  have "seenIds (dedupe_step st f) = set (map target_id (allFindings (dedupe_step st f)))"
    "distinct (map target_id (allFindings (dedupe_step st f)))"
    unfolding dedupe_step_accept[OF True] using ids dist fresh by simp_all
  moreover have "\<forall>h i. seenTextHashes (dedupe_step st f) h = Some i \<longrightarrow>
      (\<exists>g \<in> set (allFindings (dedupe_step st f)). textHash g = h \<and> target_id g = i)"
    unfolding dedupe_step_accept[OF True] using new_src by simp
  moreover have "\<forall>g \<in> set (allFindings (dedupe_step st f)). target_id g \<noteq> [] \<longrightarrow>
      seenTextHashes (dedupe_step st f) (textHash g) = Some (target_id g)"
    unfolding dedupe_step_accept[OF True] using new_own by simp
  ultimately show ?thesis unfolding dedupe_inv_def by blast
qed

lemma dedupe_foldl_inv: "dedupe_inv st \<Longrightarrow> dedupe_inv (foldl dedupe_step st fs)"
  by (induction fs arbitrary: st) (simp_all add: dedupe_step_inv)

lemma dedupe_step_keep:
  assumes "dedupe_inv st"
  shows "allFindings (dedupe_step st f) = keep_step (allFindings st) f"
proof (cases "accepts st f")
  case True
  then show ?thesis
    using accepts_iff_passes[OF assms, of f] by (simp add: dedupe_step_accept keep_step_def)
next
  case False
  then obtain m where "dedupe_step st f = emit [ConsoleWarn m] st"
    using dedupe_step_reject by blast
  then show ?thesis
    using False accepts_iff_passes[OF assms, of f] by (simp add: keep_step_def)
qed

lemma dedupe_foldl_keep:
  "dedupe_inv st \<Longrightarrow> allFindings (foldl dedupe_step st fs) = foldl keep_step (allFindings st) fs"
  by (induction fs arbitrary: st) (simp_all add: dedupe_step_inv dedupe_step_keep)

lemma after_call_simps [simp]:
  "allFindings (after_call p st) = allFindings st" "seenIds (after_call p st) = seenIds st"
  "seenTextHashes (after_call p st) = seenTextHashes st"
  "events (after_call p st) = events st @ [RemoteCall (calls st) p]"
  "calls (after_call p st) = Suc (calls st)"
  by (simp_all add: after_call_def)

lemma retry_Response:
  "ai (calls st) params = Response r \<Longrightarrow>
     generateContentWithRetry ai params retries st = (Inr r, after_call params st)"
  by (subst generateContentWithRetry.simps) (simp add: Let_def after_call_def)

lemma retry_Failure_stop:
  "ai (calls st) params = Failure e \<Longrightarrow> \<not> (retries > 0 \<and> transient e) \<Longrightarrow>
     generateContentWithRetry ai params retries st = (Inl e, after_call params st)"
  by (subst generateContentWithRetry.simps) (auto simp add: Let_def after_call_def transient_def)

lemma retry_Failure_again:
  "ai (calls st) params = Failure e \<Longrightarrow> retries > 0 \<Longrightarrow> transient e \<Longrightarrow>
     generateContentWithRetry ai params retries st =
       generateContentWithRetry ai params (retries - 1)
         (emit [ConsoleWarn ''Gemini API Error. Retrying...'', Backoff (backoff retries)]
            (after_call params st))"
  by (subst generateContentWithRetry.simps) (auto simp add: Let_def after_call_def transient_def)

lemma retry_preserves:
  "generateContentWithRetry ai params retries st = (r, st') \<Longrightarrow>
     allFindings st' = allFindings st \<and> seenIds st' = seenIds st \<and> seenTextHashes st' = seenTextHashes st"
proof (induction retries arbitrary: st r st')
  case 0
  then show ?case
    by (cases "ai (calls st) params") (auto simp add: retry_Response retry_Failure_stop)
next
  case (Suc n)
  show ?case
  proof (cases "ai (calls st) params")
    case (Response x)
    with Suc.prems show ?thesis by (auto simp add: retry_Response)
  next
    case (Failure e)
    show ?thesis
    proof (cases "transient e")
      case True
      with Failure Suc.prems Suc.IH show ?thesis
        by (fastforce simp add: retry_Failure_again)
    next
      case False
      with Failure Suc.prems show ?thesis by (auto simp add: retry_Failure_stop)
    qed
  qed
qed

lemma retry_inv:
  "generateContentWithRetry ai params retries st = (r, st') \<Longrightarrow> dedupe_inv st' = dedupe_inv st"
  using retry_preserves[of ai params retries st r st'] by (simp add: dedupe_inv_def)

lemma analyzeBatch_inv:
  assumes "dedupe_inv st"
  shows "dedupe_inv (analyzeBatch sv n st ic)"
proof -
  obtain i chunk where ic: "ic = (i, chunk)" by (cases ic)
  let ?st0 = "emit [AnalyzingBatch (i + 1) n] st"
  have st0: "dedupe_inv ?st0" using assms by (simp add: dedupe_inv_emit)
  obtain r st1 where g: "generateContentWithRetry (generateContent sv) chunk 3 ?st0 = (r, st1)"
    by (cases "generateContentWithRetry (generateContent sv) chunk 3 ?st0")
  then have st1: "dedupe_inv st1" using st0 retry_inv by blast
  show ?thesis
    using st0 st1 g
    by (cases r) (simp_all add: ic analyzeBatch_def Let_def dedupe_inv_emit dedupe_foldl_inv)
qed

lemma analyzeBatches_inv: "dedupe_inv st \<Longrightarrow> dedupe_inv (foldl (analyzeBatch sv n) st ics)"
  by (induction ics arbitrary: st) (simp_all add: analyzeBatch_inv)

lemma analyzeRun_inv: "dedupe_inv (analyzeRun sv d)"
  by (simp add: analyzeRun_def Let_def analyzeBatches_inv dedupe_inv_emit dedupe_inv_initial)

lemma dedupe_inv_fingerprints:
  assumes "dedupe_inv st" "f \<in> set (allFindings st)" "g \<in> set (allFindings st)"
    "target_id f \<noteq> []" "target_id g \<noteq> []" "textHash f = textHash g"
  shows "f = g"
proof -
  from assms(1) have own: "\<forall>g \<in> set (allFindings st). target_id g \<noteq> [] \<longrightarrow>
      seenTextHashes st (textHash g) = Some (target_id g)"
    by (simp add: dedupe_inv_def)
  with assms(2-5) have "seenTextHashes st (textHash f) = Some (target_id f)"
    "seenTextHashes st (textHash g) = Some (target_id g)"
    by blast+
  with assms(6) have "target_id f = target_id g" by simp
  moreover from assms(1) have "inj_on target_id (set (allFindings st))"
    by (simp add: dedupe_inv_def distinct_map)
  ultimately show ?thesis using assms(2,3) by (simp add: inj_on_def)
qed

lemma analyzeBatch_keep:
  assumes "dedupe_inv st"
  shows "allFindings (analyzeBatch sv n st ic) = foldl keep_step (allFindings st) (offeredBatch sv n st ic)"
proof -
  obtain i chunk where ic: "ic = (i, chunk)" by (cases ic)
  let ?st0 = "emit [AnalyzingBatch (i + 1) n] st"
  have st0: "dedupe_inv ?st0" using assms by (simp add: dedupe_inv_emit)
  obtain r st1 where g: "generateContentWithRetry (generateContent sv) chunk 3 ?st0 = (r, st1)"
    by (cases "generateContentWithRetry (generateContent sv) chunk 3 ?st0")
  then have st1: "dedupe_inv st1" using st0 retry_inv by blast
  have all: "allFindings st1 = allFindings st" using retry_preserves[OF g] by simp
  show ?thesis
    using st1 g all
    by (cases r) (simp_all add: ic analyzeBatch_def offeredBatch_def Let_def dedupe_foldl_keep)
qed

lemma analyzeBatches_keep:
  "dedupe_inv st \<Longrightarrow>
   allFindings (foldl (analyzeBatch sv n) st ics) = foldl keep_step (allFindings st) (offeredFrom sv n st ics)"
  by (induction ics arbitrary: st) (simp_all add: analyzeBatch_inv analyzeBatch_keep)

lemma analyzeRun_keep: "analyzeDocumentWithGemini sv d = foldl keep_step [] (offered sv d)"
proof -
  have "dedupe_inv (emit [SplittingInto (length (createChunks d))] initial_run)"
    by (simp add: dedupe_inv_emit dedupe_inv_initial)
  from analyzeBatches_keep[OF this] show ?thesis
    by (simp add: analyzeDocumentWithGemini_def analyzeRun_def offered_def Let_def initial_run_def)
qed

lemma retry_spec:
  assumes "generateContentWithRetry ai params retries st = (r, st')"
  shows "\<exists>n. 1 \<le> n \<and> n \<le> retries + 1 \<and> calls st' = calls st + n
     \<and> events st' = events st @ retry_events (calls st) params retries n
     \<and> (\<forall>k. Suc k < n \<longrightarrow> (\<exists>e. ai (calls st + k) params = Failure e \<and> transient e))
     \<and> (case ai (calls st + n - 1) params of
           Response x \<Rightarrow> r = Inr x
         | Failure e \<Rightarrow> r = Inl e \<and> (transient e \<longrightarrow> n = retries + 1))"
  using assms
proof (induction retries arbitrary: st r st')
  case 0
  then show ?case
    by (cases "ai (calls st) params") (auto simp add: retry_Response retry_Failure_stop intro!: exI[of _ 1])
next
  case (Suc m)
  show ?case
  proof (cases "ai (calls st) params")
    case (Response x)
    with Suc.prems show ?thesis by (auto simp add: retry_Response intro!: exI[of _ 1])
  next
    case (Failure e)
    show ?thesis
    proof (cases "transient e")
      case False
      with Failure Suc.prems show ?thesis by (auto simp add: retry_Failure_stop intro!: exI[of _ 1])
    next
      case True
      let ?st2 = "emit [ConsoleWarn ''Gemini API Error. Retrying...'', Backoff (backoff (Suc m))]
            (after_call params st)"
      from Failure True Suc.prems have rec: "generateContentWithRetry ai params m ?st2 = (r, st')"
        by (simp add: retry_Failure_again)
      from Suc.IH[OF rec] obtain n where n: "1 \<le> n" "n \<le> m + 1" "calls st' = calls ?st2 + n"
        "events st' = events ?st2 @ retry_events (calls ?st2) params m n"
        "\<forall>k. Suc k < n \<longrightarrow> (\<exists>e. ai (calls ?st2 + k) params = Failure e \<and> transient e)"
        "case ai (calls ?st2 + n - 1) params of
           Response x \<Rightarrow> r = Inr x
         | Failure e \<Rightarrow> r = Inl e \<and> (transient e \<longrightarrow> n = m + 1)"
        by blast
      from n(1) obtain n' where n': "n = Suc n'" by (cases n) auto
      have ev: "events st' = events st @ retry_events (calls st) params (Suc m) (Suc n)"
        using n(4) by (simp add: n')
      have fails: "\<forall>k. Suc k < Suc n \<longrightarrow> (\<exists>e. ai (calls st + k) params = Failure e \<and> transient e)"
      proof (intro allI impI)
        fix k assume "Suc k < Suc n"
        show "\<exists>e. ai (calls st + k) params = Failure e \<and> transient e"
        proof (cases k)
          case 0
          then show ?thesis using Failure True by simp
        next
          case (Suc j)
          with \<open>Suc k < Suc n\<close> n(5) show ?thesis by simp
        qed
      qed
      have last: "case ai (calls st + Suc n - 1) params of
           Response x \<Rightarrow> r = Inr x
         | Failure e \<Rightarrow> r = Inl e \<and> (transient e \<longrightarrow> Suc n = Suc m + 1)"
        using n(6) by (simp add: n' split: outcome.splits)
      show ?thesis
        using n(1,2,3) ev fails last by (intro exI[of _ "Suc n"]) simp
    qed
  qed
qed

lemma backoffs_retry_events_3:
  "n \<le> 4 \<Longrightarrow> backoffs_of (retry_events c p 3 n) = take (n - 1) [2000, 4000, 8000]"
proof -
  assume "n \<le> 4"
  then consider "n = 0" | "n = 1" | "n = 2" | "n = 3" | "n = 4" by linarith
  then show ?thesis
    by cases (simp_all add: numeral_2_eq_2 numeral_3_eq_3 eval_nat_numeral backoff_def)
qed

lemma batch_marks_append: "batch_marks (xs @ ys) = batch_marks xs @ batch_marks ys"
  by (induction xs rule: batch_marks.induct) simp_all

lemma batch_marks_retry_events: "batch_marks (retry_events c p retries n) = []"
  by (induction c p retries n rule: retry_events.induct) simp_all

lemma dedupe_step_marks: "batch_marks (events (dedupe_step st f)) = batch_marks (events st)"
  by (simp add: dedupe_step_def Let_def batch_marks_append)

lemma dedupe_foldl_marks: "batch_marks (events (foldl dedupe_step st fs)) = batch_marks (events st)"
  by (induction fs arbitrary: st) (simp_all add: dedupe_step_marks)

lemma analyzeBatch_marks:
  "batch_marks (events (analyzeBatch sv n st (i, chunk))) = batch_marks (events st) @ [(i + 1, n)]"
proof -
  let ?st0 = "emit [AnalyzingBatch (i + 1) n] st"
  obtain r st1 where g: "generateContentWithRetry (generateContent sv) chunk 3 ?st0 = (r, st1)"
    by (cases "generateContentWithRetry (generateContent sv) chunk 3 ?st0")
  from retry_spec[OF g] obtain k where "events st1 = events ?st0 @ retry_events (calls ?st0) chunk 3 k"
    by blast
  then have m1: "batch_marks (events st1) = batch_marks (events st) @ [(i + 1, n)]"
    by (simp add: batch_marks_append batch_marks_retry_events)
  show ?thesis
    using g m1
    by (cases r) (simp_all add: analyzeBatch_def Let_def batch_marks_append dedupe_foldl_marks)
qed

lemma analyzeBatches_marks:
  "batch_marks (events (foldl (analyzeBatch sv n) st ics))
     = batch_marks (events st) @ map (\<lambda>ic. (fst ic + 1, n)) ics"
proof (induction ics arbitrary: st)
  case Nil
  show ?case by simp
next
  case (Cons ic ics)
  obtain i c where "ic = (i, c)" by (cases ic)
  then show ?case using Cons.IH by (simp add: analyzeBatch_marks)
qed

lemma analyzeRun_marks:
  "batch_marks (events (analyzeRun sv d))
     = map (\<lambda>i. (i + 1, length (createChunks d))) [0..<length (createChunks d)]"
proof -
  have "map (\<lambda>ic. (fst ic + 1, n)) (enumerate 0 cs) = map (\<lambda>i. (i + 1, n)) [0..<length cs]" for n and cs :: "string list"
  proof -
    have "map (\<lambda>ic. (fst ic + 1, n)) xs = map (\<lambda>i. (i + 1, n)) (map fst xs)" for xs :: "(nat \<times> string) list"
      by (simp add: comp_def)
    then have "map (\<lambda>ic. (fst ic + 1, n)) (enumerate 0 cs) = map (\<lambda>i. (i + 1, n)) (map fst (enumerate 0 cs))" .
    also have "map fst (enumerate 0 cs) = [0..<length cs]" by simp
    finally show ?thesis .
  qed
  then show ?thesis
    by (simp add: analyzeRun_def Let_def analyzeBatches_marks batch_marks_append initial_run_def)
qed

lemma analyzeBatch_failure:
  assumes "\<not> lowRelevance (maxScore sv chunk)"
    and "generateContentWithRetry (generateContent sv) chunk 3 (emit [AnalyzingBatch (i + 1) n] st) = (Inl e, st1)"
  shows "allFindings (analyzeBatch sv n st (i, chunk)) = allFindings st
    \<and> seenIds (analyzeBatch sv n st (i, chunk)) = seenIds st
    \<and> seenTextHashes (analyzeBatch sv n st (i, chunk)) = seenTextHashes st
    \<and> events (analyzeBatch sv n st (i, chunk))
        = events st1 @ [ConsoleError (''Batch '' @ String_of_nat i @ '' failed:'')]"
  using assms retry_preserves[OF assms(2)] by (simp add: analyzeBatch_def Let_def)

lemma dynamicMaxClauses_pos: "1 \<le> dynamicMaxClauses a"
  by (simp add: dynamicMaxClauses_def split: option.splits)

lemma dynamicMaxClauses_antimono: "a \<le> b \<Longrightarrow> dynamicMaxClauses (Some b) \<le> dynamicMaxClauses (Some a)"
  by (simp add: dynamicMaxClauses_def)

lemma createChunks_groups:
  "\<exists>gs. concat gs = paragraphs d \<and> [] \<notin> set gs \<and> createChunks d = map serialize gs
     \<and> (\<forall>g \<in> set gs. within_bounds (dynamicMaxClauses (avgBlockSize (paragraphs d))) g)
     \<and> (\<forall>i. Suc i < length gs \<longrightarrow>
           overflows (dynamicMaxClauses (avgBlockSize (paragraphs d))) (gs ! i) (hd (gs ! Suc i)))"
proof (cases "paragraphs d = []")
  case True
  then show ?thesis by (intro exI[of _ "[]"]) (simp add: createChunks_def)
next
  case False
  let ?M = "dynamicMaxClauses (avgBlockSize (paragraphs d))"
  let ?s = "foldl (chunk_step ?M) \<lparr>chunks = [], currentChunk = [], currentClauseCount = 0\<rparr> (paragraphs d)"
  from chunk_inv_foldl[OF dynamicMaxClauses_pos, of "avgBlockSize (paragraphs d)" "paragraphs d"]
  obtain ds c where inv: "chunk_inv ?M (paragraphs d) ?s ds c" by blast
  note D = chunk_invD[OF inv]
  from D(4) False have c: "c \<noteq> []" using D(6) by auto
  have fin: "createChunks d = map serialize (ds @ [c])"
    using False c D(1,2) by (simp add: createChunks_def chunk_finish_def serialize_Nil_iff)
  show ?thesis
    using D(4,5,7,8,9) c fin by (intro exI[of _ "ds @ [c]"]) auto
qed

lemma big: "createChunks big_doc = [pText (mkPara ''a'' (replicate 30000 (CHR ''x''))), pText (mkPara ''b'' (replicate 30000 (CHR ''y'')))]"
  by (simp add: createChunks_def big_doc_def mkDoc_def mkPara_def chunk_step_def chunk_finish_def Let_def
      pText_def avgBlockSize_def totalChars_def dynamicMaxClauses_def MAX_CHARS_PER_BATCH_def)

lemma cx_hashes:
  "textHash cx_A = ''same text_9''" "textHash cx_B1 = ''same text_9''" "textHash cx_B2 = ''other_5''"
  by (code_simp)+

lemma cx_ids: "target_id cx_A = ''A''" "target_id cx_B1 = ''B''" "target_id cx_B2 = ''B''"
  by (simp_all add: cx_A_def cx_B1_def cx_B2_def)

lemma cc: "createChunks cx_doc = [pText (mkPara ''p1'' ''Same text'')]"
  by (simp add: createChunks_def cx_doc_def mkDoc_def mkPara_def chunk_step_def chunk_finish_def Let_def
      pText_def avgBlockSize_def totalChars_def dynamicMaxClauses_def MAX_CHARS_PER_BATCH_def)

lemma cx: "analyzeDocumentWithGemini cx_services cx_doc = [cx_A, cx_B2]"
  by (simp add: analyzeDocumentWithGemini_def analyzeRun_def cc Let_def analyzeBatch_def enumerate_eq_zip
      cx_services_def lowRelevance_def retry_Response initial_run_def dedupe_step_def truthy_def
      cx_hashes cx_ids)

lemma concat_map_serialize: "concat (map serialize gs) = concat (map pText (concat gs))"
  by (induction gs) (simp_all add: serialize_def)

lemma totalChars_foldl:
  "foldl (\<lambda>sum p. sum + length (para_text p)) a ps = a + sum_list (map (\<lambda>p. length (para_text p)) ps)"
  by (induction ps arbitrary: a) simp_all

lemma avgBlockSize_average: "ps \<noteq> [] \<Longrightarrow> avgBlockSize ps = Some (averageLength ps)"
  by (simp add: avgBlockSize_def averageLength_def totalChars_def totalChars_foldl)

lemma ceilingOf_values:
  assumes "paragraphs d \<noteq> []"
  shows "ceilingOf d = (if averageLength (paragraphs d) < 200 then 50
                        else if averageLength (paragraphs d) < 500 then 30 else 18)"
  using assms by (simp add: ceilingOf_def avgBlockSize_average dynamicMaxClauses_def)

lemma ceilingOf_antimono:
  assumes "paragraphs d \<noteq> []" "paragraphs e \<noteq> []"
    and "averageLength (paragraphs d) \<le> averageLength (paragraphs e)"
  shows "ceilingOf e \<le> ceilingOf d"
  using assms by (simp add: ceilingOf_values)

lemma chunk_fill:
  "n \<le> M \<Longrightarrow> n * length (pText p) \<le> MAX_CHARS_PER_BATCH \<Longrightarrow>
   foldl (chunk_step M) \<lparr>chunks = [], currentChunk = [], currentClauseCount = 0\<rparr> (replicate n p)
     = \<lparr>chunks = [], currentChunk = concat (replicate n (pText p)), currentClauseCount = n\<rparr>"
proof (induction n)
  case 0
  then show ?case by simp
next
  case (Suc n)
  have r: "replicate (Suc n) p = replicate n p @ [p]"
    by (simp add: replicate_append_same)
  have c: "concat (replicate n (pText p)) @ pText p = pText p @ concat (replicate n (pText p))"
    by (induction n) simp_all
  have l: "length (concat (replicate n (pText p))) = n * length (pText p)"
    by (induction n) simp_all
  from Suc.prems have "n \<le> M" "n * length (pText p) \<le> MAX_CHARS_PER_BATCH"
    "n * length (pText p) + length (pText p) \<le> MAX_CHARS_PER_BATCH" "n < M"
    by simp_all
  then show ?case
    using Suc.IH by (simp only: r foldl_append) (simp add: chunk_step_def Let_def l c)
qed

lemma long_avg: "averageLength (paragraphs long_doc) = 500"
  by (simp add: averageLength_def long_doc_def mkDoc_def long_para_def mkPara_def sum_list_replicate)

lemma long_text_length: "length (pText long_para) = 535"
  by (simp add: pText_def long_para_def mkPara_def)

lemma long_chunks:
  "createChunks long_doc = [concat (replicate 18 (pText long_para)), pText long_para]"
proof -
  have ne: "paragraphs long_doc \<noteq> []" by (simp add: long_doc_def mkDoc_def)
  have M: "dynamicMaxClauses (avgBlockSize (paragraphs long_doc)) = 18"
    using ceilingOf_values[OF ne] by (simp add: long_avg ceilingOf_def)
  have r: "paragraphs long_doc = replicate 18 long_para @ [long_para]"
    by (simp add: long_doc_def mkDoc_def replicate_append_same[symmetric] del: replicate_Suc)
       (simp add: eval_nat_numeral)
  have f: "foldl (chunk_step 18) \<lparr>chunks = [], currentChunk = [], currentClauseCount = 0\<rparr>
             (replicate 18 long_para)
     = \<lparr>chunks = [], currentChunk = concat (replicate 18 (pText long_para)), currentClauseCount = 18\<rparr>"
    by (rule chunk_fill) (simp_all add: long_text_length MAX_CHARS_PER_BATCH_def)
  have n: "concat (replicate 18 (pText long_para)) \<noteq> []"
    using pText_nonempty[of long_para] by (simp add: eval_nat_numeral)
  show ?thesis
    unfolding createChunks_def M
    using ne n pText_nonempty[of long_para]
    by (simp only: r foldl_append f) (simp add: chunk_step_def Let_def chunk_finish_def)
qed

text \<open>
  Claim C3 (batch chunker bounds and order).  The chunks are the serializations of consecutive,
  non-empty groups of whole paragraphs that partition the input in order, so no paragraph is
  split and the chunks concatenate to the serialization of all paragraphs.  Every group obeys
  the block-count ceiling of the document and, unless it is a single paragraph, the character
  budget; a new group starts only where the next paragraph would overflow the current one, and
  a paragraph that would overflow a non-empty current chunk first closes it.  The ceiling is
  chosen from the average block text length of the document: 50 below an average of 200, 30
  from 200 to below 500, and 18 from 500 on, so that of two documents the one with the shorter
  average never has the lower ceiling, and has the strictly higher one across a threshold.
\<close>

theorem createChunks_bounds_and_order:
  "(\<exists>gs. concat gs = paragraphs d \<and> [] \<notin> set gs
      \<and> createChunks d = map serialize gs
      \<and> (\<forall>g \<in> set gs. within_bounds (ceilingOf d) g)
      \<and> (\<forall>i. Suc i < length gs \<longrightarrow> overflows (ceilingOf d) (gs ! i) (hd (gs ! Suc i))))
   \<and> concat (createChunks d) = concat (map pText (paragraphs d))
   \<and> ((length (currentChunk s) + length (pText p) > MAX_CHARS_PER_BATCH \<or> currentClauseCount s + 1 > M)
        \<and> currentChunk s \<noteq> [] \<longrightarrow>
        chunk_step M s p = \<lparr>chunks = chunks s @ [currentChunk s], currentChunk = pText p,
                             currentClauseCount = 1\<rparr>)
   \<and> (paragraphs d \<noteq> [] \<longrightarrow>
        ceilingOf d = (if averageLength (paragraphs d) < 200 then 50
                       else if averageLength (paragraphs d) < 500 then 30 else 18))
   \<and> (paragraphs d \<noteq> [] \<and> paragraphs e \<noteq> []
        \<and> averageLength (paragraphs d) \<le> averageLength (paragraphs e) \<longrightarrow>
        ceilingOf e \<le> ceilingOf d)
   \<and> (paragraphs d \<noteq> [] \<and> paragraphs e \<noteq> []
        \<and> (averageLength (paragraphs d) < 200 \<and> 200 \<le> averageLength (paragraphs e)
            \<or> averageLength (paragraphs d) < 500 \<and> 500 \<le> averageLength (paragraphs e)) \<longrightarrow>
        ceilingOf e < ceilingOf d)"
proof -
  from createChunks_groups[of d] obtain gs where gs: "concat gs = paragraphs d" "[] \<notin> set gs"
    "createChunks d = map serialize gs"
    "\<forall>g \<in> set gs. within_bounds (ceilingOf d) g"
    "\<forall>i. Suc i < length gs \<longrightarrow> overflows (ceilingOf d) (gs ! i) (hd (gs ! Suc i))"
    unfolding ceilingOf_def by blast
  have order: "concat (createChunks d) = concat (map pText (paragraphs d))"
    using gs(1,3) by (simp add: concat_map_serialize)
  have step: "(length (currentChunk s) + length (pText p) > MAX_CHARS_PER_BATCH \<or> currentClauseCount s + 1 > M)
        \<and> currentChunk s \<noteq> [] \<longrightarrow>
        chunk_step M s p = \<lparr>chunks = chunks s @ [currentChunk s], currentChunk = pText p,
                             currentClauseCount = 1\<rparr>"
    by (simp add: chunk_step_def Let_def)
  have vals: "paragraphs d \<noteq> [] \<longrightarrow>
        ceilingOf d = (if averageLength (paragraphs d) < 200 then 50
                       else if averageLength (paragraphs d) < 500 then 30 else 18)"
    using ceilingOf_values[of d] by blast
  have mono: "paragraphs d \<noteq> [] \<and> paragraphs e \<noteq> []
        \<and> averageLength (paragraphs d) \<le> averageLength (paragraphs e) \<longrightarrow>
        ceilingOf e \<le> ceilingOf d"
    using ceilingOf_antimono[of d e] by blast
  have strict: "paragraphs d \<noteq> [] \<and> paragraphs e \<noteq> []
        \<and> (averageLength (paragraphs d) < 200 \<and> 200 \<le> averageLength (paragraphs e)
            \<or> averageLength (paragraphs d) < 500 \<and> 500 \<le> averageLength (paragraphs e)) \<longrightarrow>
        ceilingOf e < ceilingOf d"
    by (auto simp add: ceilingOf_values)
  have groups: "\<exists>gs. concat gs = paragraphs d \<and> [] \<notin> set gs
      \<and> createChunks d = map serialize gs
      \<and> (\<forall>g \<in> set gs. within_bounds (ceilingOf d) g)
      \<and> (\<forall>i. Suc i < length gs \<longrightarrow> overflows (ceilingOf d) (gs ! i) (hd (gs ! Suc i)))"
    using gs by blast
  from groups order step vals mono strict show ?thesis by (intro conjI)
qed

theorem createChunks_bounds_and_order_witness:
  "createChunks long_doc = [concat (replicate 18 (pText long_para)), pText long_para]
   \<and> concat (createChunks long_doc) = concat (map pText (paragraphs long_doc))
   \<and> averageLength (paragraphs long_doc) = 500 \<and> ceilingOf long_doc = 18
   \<and> averageLength (paragraphs cx_doc) = 9 \<and> ceilingOf cx_doc = 50
   \<and> ceilingOf long_doc < ceilingOf cx_doc
   \<and> chunk_step 18
        \<lparr>chunks = [], currentChunk = concat (replicate 18 (pText long_para)), currentClauseCount = 18\<rparr>
        long_para
      = \<lparr>chunks = [concat (replicate 18 (pText long_para))], currentChunk = pText long_para,
          currentClauseCount = 1\<rparr>
   \<and> createChunks big_doc = [pText (mkPara ''a'' (replicate 30000 (CHR ''x''))),
                             pText (mkPara ''b'' (replicate 30000 (CHR ''y'')))]"
proof -
  note A = createChunks_bounds_and_order[where d = long_doc and e = cx_doc and M = 18 and p = long_para
      and s = "\<lparr>chunks = [], currentChunk = concat (replicate 18 (pText long_para)),
                currentClauseCount = 18\<rparr>"]
  note B = createChunks_bounds_and_order[where d = cx_doc and e = long_doc and M = 18 and p = long_para
      and s = "\<lparr>chunks = [], currentChunk = [], currentClauseCount = 0\<rparr>"]
  have ne: "paragraphs long_doc \<noteq> []" "paragraphs cx_doc \<noteq> []"
    by (simp_all add: long_doc_def cx_doc_def mkDoc_def)
  have cxa: "averageLength (paragraphs cx_doc) = 9"
    by (simp add: averageLength_def cx_doc_def mkDoc_def mkPara_def)
  from A have "concat (createChunks long_doc) = concat (map pText (paragraphs long_doc))"
    by (elim conjE)
  moreover from A ne have "ceilingOf long_doc = 18"
    by (simp add: long_avg)
  moreover from B ne have "ceilingOf cx_doc = 50"
    by (simp add: cxa)
  moreover from B ne have "ceilingOf long_doc < ceilingOf cx_doc"
    by (simp add: cxa long_avg)
  moreover have "concat (replicate 18 (pText long_para)) \<noteq> []"
    using pText_nonempty[of long_para] by (simp add: eval_nat_numeral)
  with A have "chunk_step 18
        \<lparr>chunks = [], currentChunk = concat (replicate 18 (pText long_para)), currentClauseCount = 18\<rparr>
        long_para
      = \<lparr>chunks = [concat (replicate 18 (pText long_para))], currentChunk = pText long_para,
          currentClauseCount = 1\<rparr>"
    by simp
  ultimately show ?thesis using long_chunks long_avg cxa big by simp
qed

text \<open>
  Claim C10 (empty document).  With no paragraph the guard of \<open>createChunks\<close> returns the empty
  list, so the average is taken only over a positive number of paragraphs (it is undefined
  exactly for none), and the dispatch loop runs over no batch: the run returns no finding and
  issues no remote call.
\<close>

theorem createChunks_empty_document:
  "(paragraphs d = [] \<longrightarrow>
      createChunks d = [] \<and> analyzeDocumentWithGemini sv d = []
      \<and> events (analyzeRun sv d) = [SplittingInto 0] \<and> calls (analyzeRun sv d) = 0)
   \<and> (avgBlockSize (paragraphs d) = None \<longleftrightarrow> paragraphs d = [])"
  by (simp add: createChunks_def analyzeDocumentWithGemini_def analyzeRun_def initial_run_def
      avgBlockSize_def)

theorem createChunks_empty_document_witness:
  "paragraphs (mkDoc []) = [] \<and> createChunks (mkDoc []) = []
   \<and> analyzeDocumentWithGemini cx_services (mkDoc []) = []
   \<and> events (analyzeRun cx_services (mkDoc [])) = [SplittingInto 0]"
proof -
  have "paragraphs (mkDoc []) = []" by (simp add: mkDoc_def)
  then show ?thesis using createChunks_empty_document[of "mkDoc []" cx_services] by blast
qed

lemma cx_empty: "analyzeDocumentWithGemini cx_services_empty cx_doc = [ex_empty_id, cx_B1]"
proof -
  have h: "textHash ex_empty_id = textHash cx_B1"
    by (simp add: textHash_def ex_empty_id_def cx_B1_def)
  have i: "target_id ex_empty_id = []" by (simp add: ex_empty_id_def)
  show ?thesis
    by (simp add: analyzeDocumentWithGemini_def analyzeRun_def cc Let_def analyzeBatch_def enumerate_eq_zip
        cx_services_empty_def lowRelevance_def retry_Response initial_run_def dedupe_step_def truthy_def
        h i cx_ids)
qed

lemma cx_offered: "offered cx_services cx_doc = [cx_A, cx_B1, cx_B2]"
  by (simp add: offered_def cc enumerate_eq_zip offeredBatch_def cx_services_def lowRelevance_def
      retry_Response)

text \<open>
  Claim C2, as stated, fails in two places.  The first finding seen for an identifier need not
  be the one that is kept: a finding for identifier \<open>B\<close> that repeats the text of an accepted
  finding \<open>A\<close> is rejected by the content check without its identifier being recorded, so a
  later finding for \<open>B\<close> with another text is accepted.  And two returned findings can have
  the same fingerprint under different identifiers: the content check tests the identifier it
  looks up for truthiness, so an accepted finding with the empty identifier does not block a
  later finding with the same text.
\<close>

theorem dedupe_first_seen_counterexample:
  "parseFindings cx_services ''out'' = [cx_A, cx_B1, cx_B2]
   \<and> target_id cx_B1 = target_id cx_B2
   \<and> analyzeDocumentWithGemini cx_services cx_doc = [cx_A, cx_B2]
   \<and> cx_B1 \<notin> set (analyzeDocumentWithGemini cx_services cx_doc)
   \<and> cx_B2 \<in> set (analyzeDocumentWithGemini cx_services cx_doc)
   \<and> parseFindings cx_services_empty ''out'' = [ex_empty_id, cx_B1]
   \<and> analyzeDocumentWithGemini cx_services_empty cx_doc = [ex_empty_id, cx_B1]
   \<and> textHash ex_empty_id = textHash cx_B1
   \<and> target_id ex_empty_id \<noteq> target_id cx_B1"
proof -
  have "cx_B1 \<noteq> cx_A" "cx_B1 \<noteq> cx_B2"
    by (simp_all add: cx_A_def cx_B1_def cx_B2_def)
  moreover have "textHash ex_empty_id = textHash cx_B1"
    by (simp add: textHash_def ex_empty_id_def cx_B1_def)
  moreover have "target_id ex_empty_id \<noteq> target_id cx_B1"
    by (simp add: ex_empty_id_def cx_ids)
  ultimately show ?thesis
    by (simp add: cx cx_empty cx_ids) (simp add: cx_services_def cx_services_empty_def)
qed

text \<open>
  Claim C2 (cross-batch deduplication), amended.  The findings a run returns are the findings
  offered by its batches, in order, filtered by the two checks: a finding is kept exactly when
  no finding kept before it has its identifier, and no finding kept before it with a different,
  non-empty identifier has its content fingerprint.  So the kept finding of an identifier is
  the first one that passes both checks.  The returned findings have pairwise distinct
  identifiers, and those with non-empty identifiers have pairwise distinct fingerprints.  In
  every state of a run the tracking tables agree with the accepted list; there a finding that
  passes is appended without a console message, and a finding that does not pass is rejected
  with one console warning that leaves the accepted list and both tables as they were, after
  which the loop goes on with the next finding.
\<close>

theorem dedupe_distinct_ids_and_fingerprints:
  "analyzeDocumentWithGemini sv d = foldl keep_step [] (offered sv d)
   \<and> distinct (map target_id (analyzeDocumentWithGemini sv d))
   \<and> (\<forall>f \<in> set (analyzeDocumentWithGemini sv d). \<forall>g \<in> set (analyzeDocumentWithGemini sv d).
         target_id f \<noteq> [] \<and> target_id g \<noteq> [] \<and> textHash f = textHash g \<longrightarrow> f = g)
   \<and> dedupe_inv initial_run \<and> dedupe_inv (analyzeRun sv d)
   \<and> (dedupe_inv st \<longrightarrow>
         dedupe_inv (dedupe_step st f)
         \<and> (passes (allFindings st) f \<longrightarrow>
               dedupe_step st f = st\<lparr>seenIds := insert (target_id f) (seenIds st),
                                      seenTextHashes := (seenTextHashes st)(textHash f \<mapsto> target_id f),
                                      allFindings := allFindings st @ [f]\<rparr>)
         \<and> (\<not> passes (allFindings st) f \<longrightarrow>
               (\<exists>m. dedupe_step st f = st\<lparr>events := events st @ [ConsoleWarn m]\<rparr>))
         \<and> allFindings (foldl dedupe_step st fs) = foldl keep_step (allFindings st) fs)"
proof -
  note inv = analyzeRun_inv[of sv d]
  have 1: "distinct (map target_id (analyzeDocumentWithGemini sv d))"
    using inv by (simp add: dedupe_inv_def analyzeDocumentWithGemini_def)
  have 2: "\<forall>f \<in> set (analyzeDocumentWithGemini sv d). \<forall>g \<in> set (analyzeDocumentWithGemini sv d).
         target_id f \<noteq> [] \<and> target_id g \<noteq> [] \<and> textHash f = textHash g \<longrightarrow> f = g"
    unfolding analyzeDocumentWithGemini_def using dedupe_inv_fingerprints[OF inv] by blast
  have 3: "dedupe_inv (dedupe_step st f)" if "dedupe_inv st"
    using that by (rule dedupe_step_inv)
  have 4: "dedupe_step st f = st\<lparr>seenIds := insert (target_id f) (seenIds st),
                                      seenTextHashes := (seenTextHashes st)(textHash f \<mapsto> target_id f),
                                      allFindings := allFindings st @ [f]\<rparr>"
    if "dedupe_inv st" "passes (allFindings st) f"
    using that accepts_iff_passes dedupe_step_accept by blast
  have 5: "\<exists>m. dedupe_step st f = st\<lparr>events := events st @ [ConsoleWarn m]\<rparr>"
    if "dedupe_inv st" "\<not> passes (allFindings st) f"
  proof -
    from that have "\<not> accepts st f" using accepts_iff_passes by blast
    from dedupe_step_reject[OF this] show ?thesis by (simp add: emit_def)
  qed
  have 6: "allFindings (foldl dedupe_step st fs) = foldl keep_step (allFindings st) fs"
    if "dedupe_inv st"
    using that by (rule dedupe_foldl_keep)
  have step: "dedupe_inv st \<longrightarrow>
         dedupe_inv (dedupe_step st f)
         \<and> (passes (allFindings st) f \<longrightarrow>
               dedupe_step st f = st\<lparr>seenIds := insert (target_id f) (seenIds st),
                                      seenTextHashes := (seenTextHashes st)(textHash f \<mapsto> target_id f),
                                      allFindings := allFindings st @ [f]\<rparr>)
         \<and> (\<not> passes (allFindings st) f \<longrightarrow>
               (\<exists>m. dedupe_step st f = st\<lparr>events := events st @ [ConsoleWarn m]\<rparr>))
         \<and> allFindings (foldl dedupe_step st fs) = foldl keep_step (allFindings st) fs"
    using 3 4 5 6 by blast
  from analyzeRun_keep[of sv d] 1 2 dedupe_inv_initial inv step show ?thesis by (intro conjI)
qed

theorem dedupe_distinct_ids_and_fingerprints_witness:
  "offered cx_services cx_doc = [cx_A, cx_B1, cx_B2]
   \<and> passes [] cx_A \<and> \<not> passes [cx_A] cx_B1 \<and> passes [cx_A] cx_B2
   \<and> analyzeDocumentWithGemini cx_services cx_doc = [cx_A, cx_B2]
   \<and> target_id cx_A \<noteq> [] \<and> target_id cx_B2 \<noteq> [] \<and> target_id cx_A \<noteq> target_id cx_B2
   \<and> textHash cx_A \<noteq> textHash cx_B2
   \<and> distinct (map target_id (analyzeDocumentWithGemini cx_services cx_doc))
   \<and> allFindings (dedupe_step initial_run cx_A) = [cx_A]
   \<and> events (dedupe_step initial_run cx_A) = []
   \<and> allFindings (dedupe_step (dedupe_step initial_run cx_A) cx_B1) = [cx_A]
   \<and> length (events (dedupe_step (dedupe_step initial_run cx_A) cx_B1)) = 1
   \<and> allFindings (foldl dedupe_step initial_run [cx_A, cx_B1, cx_B2]) = [cx_A, cx_B2]"
proof -
  note T0 = dedupe_distinct_ids_and_fingerprints[where sv = cx_services and d = cx_doc
      and st = initial_run and f = cx_A and fs = "[cx_A, cx_B1, cx_B2]"]
  note T1 = dedupe_distinct_ids_and_fingerprints[where sv = cx_services and d = cx_doc
      and st = "dedupe_step initial_run cx_A" and f = cx_B1 and fs = "[]"]
  have p: "passes [] cx_A" "\<not> passes [cx_A] cx_B1" "passes [cx_A] cx_B2"
    by (simp_all add: passes_def cx_ids cx_hashes)
  have i0: "dedupe_inv initial_run" using T0 by (elim conjE)
  have all0: "allFindings initial_run = []" "events initial_run = []"
    by (simp_all add: initial_run_def)
  from T0 i0 have s0: "dedupe_inv (dedupe_step initial_run cx_A)"
    and a0: "passes (allFindings initial_run) cx_A \<longrightarrow>
       dedupe_step initial_run cx_A = initial_run\<lparr>seenIds := insert (target_id cx_A) (seenIds initial_run),
          seenTextHashes := (seenTextHashes initial_run)(textHash cx_A \<mapsto> target_id cx_A),
          allFindings := allFindings initial_run @ [cx_A]\<rparr>"
    and f0: "allFindings (foldl dedupe_step initial_run [cx_A, cx_B1, cx_B2])
       = foldl keep_step (allFindings initial_run) [cx_A, cx_B1, cx_B2]"
    by blast+
  from a0 p(1) have k0: "allFindings (dedupe_step initial_run cx_A) = [cx_A]"
    "events (dedupe_step initial_run cx_A) = []"
    by (simp_all add: all0)
  from T1 s0 have "\<not> passes (allFindings (dedupe_step initial_run cx_A)) cx_B1 \<longrightarrow>
       (\<exists>m. dedupe_step (dedupe_step initial_run cx_A) cx_B1
          = (dedupe_step initial_run cx_A)\<lparr>events := events (dedupe_step initial_run cx_A) @ [ConsoleWarn m]\<rparr>)"
    by blast
  with p(2) k0 obtain m where "dedupe_step (dedupe_step initial_run cx_A) cx_B1
          = (dedupe_step initial_run cx_A)\<lparr>events := [ConsoleWarn m]\<rparr>"
    by auto
  then have k1: "allFindings (dedupe_step (dedupe_step initial_run cx_A) cx_B1) = [cx_A]"
    "length (events (dedupe_step (dedupe_step initial_run cx_A) cx_B1)) = 1"
    using k0 by simp_all
  from f0 p have k2: "allFindings (foldl dedupe_step initial_run [cx_A, cx_B1, cx_B2]) = [cx_A, cx_B2]"
    by (simp add: all0 keep_step_def)
  from T0 have d: "distinct (map target_id (analyzeDocumentWithGemini cx_services cx_doc))"
    by (elim conjE)
  have "target_id cx_A \<noteq> []" "target_id cx_B2 \<noteq> []" "target_id cx_A \<noteq> target_id cx_B2"
    "textHash cx_A \<noteq> textHash cx_B2"
    by (simp_all add: cx_ids cx_hashes)
  with p d k0 k1 k2 cx cx_offered show ?thesis by simp
qed

text \<open>
  Claim C4 (retry and batch isolation).  A remote call with the default budget makes between one
  and four attempts.  Every attempt but the last failed with a rate-limit or server-side error,
  the delays before the retries are 2000, 4000 and 8000 milliseconds in this order, and the
  result is the outcome of the last attempt: its response, or its error, which is transient only
  when all four attempts were used.  When the call of a batch ends in an error, the batch loop
  logs it and leaves the accepted findings and both tracking tables unchanged; the run visits
  every batch, whatever happened to the earlier ones.
\<close>

theorem retry_and_batch_isolation:
  "(generateContentWithRetry ai params 3 st = (r, st') \<longrightarrow>
      (\<exists>n. 1 \<le> n \<and> n \<le> 4 \<and> calls st' = calls st + n
         \<and> events st' = events st @ retry_events (calls st) params 3 n
         \<and> backoffs_of (retry_events (calls st) params 3 n) = take (n - 1) [2000, 4000, 8000]
         \<and> (\<forall>k. Suc k < n \<longrightarrow>
               (\<exists>e. ai (calls st + k) params = Failure e \<and> (isRateLimit e \<or> isServerError e)))
         \<and> (case ai (calls st + n - 1) params of
               Response x \<Rightarrow> r = Inr x
             | Failure e \<Rightarrow> r = Inl e \<and> (isRateLimit e \<or> isServerError e \<longrightarrow> n = 4))))
   \<and> (\<not> lowRelevance (maxScore sv chunk)
        \<and> generateContentWithRetry (generateContent sv) chunk 3 (emit [AnalyzingBatch (i + 1) m] st)
            = (Inl e, st1) \<longrightarrow>
        allFindings (analyzeBatch sv m st (i, chunk)) = allFindings st
        \<and> seenIds (analyzeBatch sv m st (i, chunk)) = seenIds st
        \<and> seenTextHashes (analyzeBatch sv m st (i, chunk)) = seenTextHashes st
        \<and> events (analyzeBatch sv m st (i, chunk))
            = events st1 @ [ConsoleError (''Batch '' @ String_of_nat i @ '' failed:'')])
   \<and> batch_marks (events (analyzeRun sv d))
        = map (\<lambda>i. (i + 1, length (createChunks d))) [0..<length (createChunks d)]"
proof -
  have retry: "generateContentWithRetry ai params 3 st = (r, st') \<longrightarrow>
      (\<exists>n. 1 \<le> n \<and> n \<le> 4 \<and> calls st' = calls st + n
         \<and> events st' = events st @ retry_events (calls st) params 3 n
         \<and> backoffs_of (retry_events (calls st) params 3 n) = take (n - 1) [2000, 4000, 8000]
         \<and> (\<forall>k. Suc k < n \<longrightarrow>
               (\<exists>e. ai (calls st + k) params = Failure e \<and> (isRateLimit e \<or> isServerError e)))
         \<and> (case ai (calls st + n - 1) params of
               Response x \<Rightarrow> r = Inr x
             | Failure e \<Rightarrow> r = Inl e \<and> (isRateLimit e \<or> isServerError e \<longrightarrow> n = 4)))"
  proof
    assume g: "generateContentWithRetry ai params 3 st = (r, st')"
    from retry_spec[OF g] obtain n where n: "1 \<le> n" "n \<le> 3 + 1" "calls st' = calls st + n"
      "events st' = events st @ retry_events (calls st) params 3 n"
      "\<forall>k. Suc k < n \<longrightarrow> (\<exists>e. ai (calls st + k) params = Failure e \<and> transient e)"
      "case ai (calls st + n - 1) params of
           Response x \<Rightarrow> r = Inr x
         | Failure e \<Rightarrow> r = Inl e \<and> (transient e \<longrightarrow> n = 3 + 1)"
      by blast
    from n(2) have n4: "n \<le> 4" by simp
    have b: "backoffs_of (retry_events (calls st) params 3 n) = take (n - 1) [2000, 4000, 8000]"
      using n4 by (rule backoffs_retry_events_3)
    have l: "case ai (calls st + n - 1) params of
               Response x \<Rightarrow> r = Inr x
             | Failure e \<Rightarrow> r = Inl e \<and> (isRateLimit e \<or> isServerError e \<longrightarrow> n = 4)"
      using n(6) by (simp add: transient_def split: outcome.splits)
    show "\<exists>n. 1 \<le> n \<and> n \<le> 4 \<and> calls st' = calls st + n
         \<and> events st' = events st @ retry_events (calls st) params 3 n
         \<and> backoffs_of (retry_events (calls st) params 3 n) = take (n - 1) [2000, 4000, 8000]
         \<and> (\<forall>k. Suc k < n \<longrightarrow>
               (\<exists>e. ai (calls st + k) params = Failure e \<and> (isRateLimit e \<or> isServerError e)))
         \<and> (case ai (calls st + n - 1) params of
               Response x \<Rightarrow> r = Inr x
             | Failure e \<Rightarrow> r = Inl e \<and> (isRateLimit e \<or> isServerError e \<longrightarrow> n = 4))"
      using n(1,3,4,5) n4 b l unfolding transient_def by (intro exI[of _ n] conjI)
  qed
  have isolation: "\<not> lowRelevance (maxScore sv chunk)
        \<and> generateContentWithRetry (generateContent sv) chunk 3 (emit [AnalyzingBatch (i + 1) m] st)
            = (Inl e, st1) \<longrightarrow>
        allFindings (analyzeBatch sv m st (i, chunk)) = allFindings st
        \<and> seenIds (analyzeBatch sv m st (i, chunk)) = seenIds st
        \<and> seenTextHashes (analyzeBatch sv m st (i, chunk)) = seenTextHashes st
        \<and> events (analyzeBatch sv m st (i, chunk))
            = events st1 @ [ConsoleError (''Batch '' @ String_of_nat i @ '' failed:'')]"
    using analyzeBatch_failure[of sv chunk i m st e st1] by blast
  from retry isolation analyzeRun_marks[of sv d] show ?thesis
    by (intro conjI)
qed

theorem retry_and_batch_isolation_witness:
  "fst (generateContentWithRetry (generateContent flaky_services) ''c'' 3 initial_run) = Inl e429
   \<and> calls (snd (generateContentWithRetry (generateContent flaky_services) ''c'' 3 initial_run)) = 4
   \<and> backoffs_of (events (snd (generateContentWithRetry (generateContent flaky_services) ''c'' 3 initial_run)))
       = [2000, 4000, 8000]
   \<and> isRateLimit e429 \<and> \<not> isRateLimit e400 \<and> \<not> isServerError e400
   \<and> analyzeDocumentWithGemini flaky_services big_doc = [cx_A, cx_B2]
   \<and> batch_marks (events (analyzeRun flaky_services big_doc)) = [(1, 2), (2, 2)]"
proof -
  let ?ai = "generateContent flaky_services"
  obtain r st' where g: "generateContentWithRetry ?ai ''c'' 3 initial_run = (r, st')"
    by (cases "generateContentWithRetry ?ai ''c'' 3 initial_run")
  have t: "isRateLimit e429" "\<not> isRateLimit e400" "\<not> isServerError e400"
    by (simp_all add: isRateLimit_def isServerError_def e429_def e400_def)
  note T = retry_and_batch_isolation[of ?ai "''c''" initial_run r st' flaky_services "''c''" 0 1 e429 st' big_doc]
  from T g obtain n where n: "1 \<le> n" "n \<le> 4" "calls st' = calls initial_run + n"
      "events st' = events initial_run @ retry_events (calls initial_run) ''c'' 3 n"
      "backoffs_of (retry_events (calls initial_run) ''c'' 3 n) = take (n - 1) [2000, 4000, 8000]"
      "case ?ai (calls initial_run + n - 1) ''c'' of
               Response x \<Rightarrow> r = Inr x
             | Failure e \<Rightarrow> r = Inl e \<and> (isRateLimit e \<or> isServerError e \<longrightarrow> n = 4)"
    by blast
  from n(1,2,6) t(1) have n4: "n = 4" and r: "r = Inl e429"
    by (auto simp add: flaky_services_def initial_run_def split: if_splits)
  from n(3,4,5) have c: "calls st' = 4" and b: "backoffs_of (events st') = [2000, 4000, 8000]"
    by (simp_all add: n4 initial_run_def)
  from T have marks: "batch_marks (events (analyzeRun flaky_services big_doc))
        = map (\<lambda>i. (i + 1, length (createChunks big_doc))) [0..<length (createChunks big_doc)]"
    by blast
  have m2: "batch_marks (events (analyzeRun flaky_services big_doc)) = [(1, 2), (2, 2)]"
    unfolding marks by (simp add: big upt_rec)
  have run: "analyzeDocumentWithGemini flaky_services big_doc = [cx_A, cx_B2]"
    by (simp add: analyzeDocumentWithGemini_def analyzeRun_def big Let_def analyzeBatch_def
        enumerate_eq_zip upt_rec flaky_services_def lowRelevance_def generateContentWithRetry.simps
        emit_def t e429_def[symmetric] initial_run_def dedupe_step_def truthy_def cx_hashes cx_ids)
  show ?thesis using g r c b t m2 run by simp
qed

section \<open>Properties of parseRuleIR\<close>

lemma findSection_None_iff: "findSection key body = None \<longleftrightarrow> \<not> labelPresent key body"
proof (induction body)
  case Nil
  show ?case by (simp add: labelPresent_def)
next
  case (Cons c cs)
  show ?case
  proof (cases "ci_prefix (''['' @ key @ '']'') (c # cs)")
    case True
    then have "labelPresent key (c # cs)"
      unfolding labelPresent_def by (intro exI[of _ "[]"] exI[of _ "c # cs"]) simp
    with True show ?thesis by (simp del: ci_prefix.simps)
  next
    case False
    have "labelPresent key (c # cs) \<longleftrightarrow> labelPresent key cs"
    proof
      assume "labelPresent key (c # cs)"
      then obtain pre post where p: "c # cs = pre @ post" "ci_prefix (''['' @ key @ '']'') post"
        unfolding labelPresent_def by blast
      with False have "pre \<noteq> []" by auto
      then obtain pre' where "pre = c # pre'" using p(1) by (cases pre) auto
      with p show "labelPresent key cs" unfolding labelPresent_def by auto
    next
      assume "labelPresent key cs"
      then obtain pre post where "cs = pre @ post" "ci_prefix (''['' @ key @ '']'') post"
        unfolding labelPresent_def by blast
      then show "labelPresent key (c # cs)"
        unfolding labelPresent_def by (intro exI[of _ "c # pre"] exI[of _ post]) simp
    qed
    with False Cons.IH show ?thesis by (simp del: ci_prefix.simps)
  qed
qed

lemma extract_field_None_iff: "extract_field body key = None \<longleftrightarrow> \<not> labelPresent key body"
  by (simp add: extract_field_def findSection_None_iff)

lemma sectionValue_prefix: "prefix (sectionValue s) s"
  by (induction s) simp_all

lemma sublist_trim: "sublist (trim s) s"
proof -
  let ?t = "dropWhile isWhiteSpace s"
  have "?t = trim s @ rev (takeWhile isWhiteSpace (rev ?t))"
    unfolding trim_def
    by (metis rev_append rev_rev_ident takeWhile_dropWhile_id)
  moreover have "s = takeWhile isWhiteSpace s @ ?t" by simp
  ultimately have "s = takeWhile isWhiteSpace s @ trim s @ rev (takeWhile isWhiteSpace (rev ?t))"
    by simp
  then show ?thesis unfolding sublist_def by blast
qed

lemma findSection_sublist: "findSection key body = Some v \<Longrightarrow> sublist v body"
proof (induction body)
  case Nil
  then show ?case by simp
next
  case (Cons c cs)
  show ?case
  proof (cases "ci_prefix (''['' @ key @ '']'') (c # cs)")
    case True
    with Cons.prems have v: "v = sectionValue (drop (length key + 2) (c # cs))"
      by (simp del: ci_prefix.simps)
    have "prefix v (drop (length key + 2) (c # cs))" unfolding v by (rule sectionValue_prefix)
    then have "sublist v (drop (length key + 2) (c # cs))" by (rule prefix_imp_sublist)
    moreover have "suffix (drop (length key + 2) (c # cs)) (c # cs)" by (rule suffix_drop)
    ultimately show ?thesis using sublist_order.order_trans suffix_imp_sublist by blast
  next
    case False
    with Cons have "sublist v cs" by (simp del: ci_prefix.simps)
    then show ?thesis by (simp add: sublist_Cons_right)
  qed
qed

lemma extract_field_sublist: "extract_field body key = Some v \<Longrightarrow> sublist v body"
  unfolding extract_field_def
  using findSection_sublist sublist_trim sublist_order.order_trans by blast

lemma split_at_first:
  assumes "split_at lit s = Some (b, r)" "lit \<noteq> []"
  shows "\<not> sublist lit b"
  using assms
proof (induction s arbitrary: b)
  case Nil
  then show ?case by (simp split: if_splits)
next
  case (Cons c cs)
  show ?case
  proof (cases "prefix lit (c # cs)")
    case True
    with Cons.prems show ?thesis by simp
  next
    case False
    with Cons.prems obtain b' where b: "b = c # b'" and sp: "split_at lit cs = Some (b', r)"
      by auto
    from Cons.IH[OF sp Cons.prems(2)] have n: "\<not> sublist lit b'" .
    have "cs = b' @ lit @ r" using sp by (rule split_at_Some)
    then have "prefix (c # b') (c # cs)" by simp
    with False have "\<not> prefix lit (c # b')"
      using prefix_order.order_trans by blast
    with n show ?thesis by (simp add: b sublist_Cons_right)
  qed
qed

lemma ruleBlocks_shape: "(ident, body) \<in> set (ruleBlocks src) \<Longrightarrow> ruleRecordIn src ident body"
proof (induction src rule: ruleBlocks.induct)
  case 1
  then show ?case by simp
next
  case (2 c cs)
  show ?case
  proof (cases "matchRuleAt (c # cs)")
    case None
    with "2.prems" have "(ident, body) \<in> set (ruleBlocks cs)" by simp
    with "2.IH"(1)[OF None] have "ruleRecordIn cs ident body" by simp
    then obtain pre ws q q' ws' post where
      "cs = pre @ ''<<RULE'' @ ws @ ''id='' @ [q] @ ident @ [q'] @ ws' @ ''>>'' @ body @ ''<<END_RULE>>'' @ post"
      "ws \<noteq> []" "\<forall>c \<in> set ws. isWhiteSpace c" "isQuote q" "isQuote q'"
      "ident \<noteq> []" "\<forall>c \<in> set ident. \<not> isQuote c" "\<forall>c \<in> set ws'. isWhiteSpace c"
      "\<not> sublist ''<<END_RULE>>'' body"
      unfolding ruleRecordIn_def by blast
    then show ?thesis
      unfolding ruleRecordIn_def
      by (intro exI[of _ "c # pre"] exI[of _ ws] exI[of _ q] exI[of _ q'] exI[of _ ws'] exI[of _ post]) simp
  next
    case (Some m)
    then obtain i b rest where m: "matchRuleAt (c # cs) = Some (i, b, rest)" by (cases m) auto
    then obtain s1 where h: "matchRuleHeader (c # cs) = Some (i, s1)"
      and sp: "split_at ''<<END_RULE>>'' s1 = Some (b, rest)"
      by (auto simp add: matchRuleAt_def split: option.splits prod.splits)
    show ?thesis
    proof (cases "(ident, body) = (i, b)")
      case True
      from matchRuleHeader_shape[OF h] obtain ws q q' ws' where
        s: "c # cs = ''<<RULE'' @ ws @ ''id='' @ [q] @ i @ [q'] @ ws' @ ''>>'' @ s1"
        and w: "ws \<noteq> []" "\<forall>c \<in> set ws. isWhiteSpace c" "isQuote q" "isQuote q'"
        "i \<noteq> []" "\<forall>c \<in> set i. \<not> isQuote c" "\<forall>c \<in> set ws'. isWhiteSpace c"
        by blast
      have nb: "\<not> sublist ''<<END_RULE>>'' b" using sp by (rule split_at_first) simp
      have "s1 = b @ ''<<END_RULE>>'' @ rest" using sp by (rule split_at_Some)
      with s have "c # cs = [] @ ''<<RULE'' @ ws @ ''id='' @ [q] @ i @ [q'] @ ws' @ ''>>'' @ b @ ''<<END_RULE>>'' @ rest"
        by simp
      with w nb True show ?thesis unfolding ruleRecordIn_def by blast
    next
      case False
      with "2.prems" m have "(ident, body) \<in> set (ruleBlocks rest)" by auto
      with "2.IH"(2)[OF m refl refl] have "ruleRecordIn rest ident body" by simp
      then obtain pre ws q q' ws' post where
        r: "rest = pre @ ''<<RULE'' @ ws @ ''id='' @ [q] @ ident @ [q'] @ ws' @ ''>>'' @ body @ ''<<END_RULE>>'' @ post"
        and w: "ws \<noteq> []" "\<forall>c \<in> set ws. isWhiteSpace c" "isQuote q" "isQuote q'"
        "ident \<noteq> []" "\<forall>c \<in> set ident. \<not> isQuote c" "\<forall>c \<in> set ws'. isWhiteSpace c"
        "\<not> sublist ''<<END_RULE>>'' body"
        unfolding ruleRecordIn_def by blast
      from matchRuleHeader_shape[OF h] obtain hd where "c # cs = hd @ s1" by auto
      moreover have "s1 = b @ ''<<END_RULE>>'' @ rest" using sp by (rule split_at_Some)
      ultimately have "c # cs = (hd @ b @ ''<<END_RULE>>'' @ pre) @ ''<<RULE'' @ ws @ ''id='' @ [q] @ ident @ [q'] @ ws' @ ''>>'' @ body @ ''<<END_RULE>>'' @ post"
        using r by simp
      with w show ?thesis unfolding ruleRecordIn_def by blast
    qed
  qed
qed

lemma applyRuleBody_fields:
  "rule_id (applyRuleBody orig body) = rule_id orig"
  "subcategory (applyRuleBody orig body) = subcategory orig"
  "synonyms (applyRuleBody orig body) = synonyms orig"
  "signal_keywords (applyRuleBody orig body) = signal_keywords orig"
  "clause_number (applyRuleBody orig body) = clause_number orig"
  "topic (applyRuleBody orig body) = orElse (extract_field body ''TOPIC'') (topic orig)"
  "category (applyRuleBody orig body) = orElseOpt (extract_field body ''CATEGORY'') (category orig)"
  "preferred_position (applyRuleBody orig body)
     = orElse (extract_field body ''PREFERRED'') (preferred_position orig)"
  "rule_reasoning (applyRuleBody orig body)
     = orElse (extract_field body ''REASONING'') (rule_reasoning orig)"
  "fallback_position (applyRuleBody orig body)
     = orElseOpt (extract_field body ''FALLBACK'') (fallback_position orig)"
  "suggested_drafting (applyRuleBody orig body)
     = orElseOpt (extract_field body ''DRAFTING'') (suggested_drafting orig)"
  "red (risk_criteria (applyRuleBody orig body))
     = orElse (extract_field body ''RISK_RED'') (red (risk_criteria orig))"
  "yellow (risk_criteria (applyRuleBody orig body))
     = orElse (extract_field body ''RISK_YELLOW'') (yellow (risk_criteria orig))"
  "green (risk_criteria (applyRuleBody orig body))
     = orElse (extract_field body ''RISK_GREEN'') (green (risk_criteria orig))"
  by (simp_all add: applyRuleBody_def Let_def orElse_def orElseOpt_def)

lemma parseRuleIR_mem:
  "r \<in> set (parseRuleIR src originalRules) \<Longrightarrow>
     \<exists>ident body orig. (ident, body) \<in> set (ruleBlocks src)
        \<and> find (\<lambda>r. rule_id r = Some ident) originalRules = Some orig
        \<and> r = applyRuleBody orig body"
  by (auto simp add: parseRuleIR_def split: option.splits) (metis)

lemma find_Some_mem: "find P xs = Some x \<Longrightarrow> x \<in> set xs \<and> P x"
  by (induction xs) (auto split: if_splits)

text \<open>
  Claim C8 (update-record frame property).  Every rule returned by \<open>parseRuleIR\<close> comes from a
  record \<open><<RULE id=...>> body <<END_RULE>>\<close> of the generated text whose non-empty identifier is
  the \<open>rule_id\<close> of an original rule, and it is that original rule with each of the nine
  labelled fields replaced by the trimmed, non-empty text of its section when there is one, and
  kept otherwise; the three risk criteria are treated one by one.  A field whose label does not
  occur in the body keeps its original value, the fields without a label are never touched, and
  every extracted value is a contiguous piece of the record body, hence of the generated text.
  The body of a record ends at the first end marker, so no field is taken from a later record.
\<close>

theorem parseRuleIR_frame:
  assumes "r \<in> set (parseRuleIR src originalRules)"
  shows "\<exists>ident body orig.
      ruleRecordIn src ident body
      \<and> orig \<in> set originalRules \<and> rule_id orig = Some ident \<and> rule_id r = Some ident
      \<and> subcategory r = subcategory orig \<and> synonyms r = synonyms orig
      \<and> signal_keywords r = signal_keywords orig \<and> clause_number r = clause_number orig
      \<and> topic r = orElse (extract_field body ''TOPIC'') (topic orig)
      \<and> category r = orElseOpt (extract_field body ''CATEGORY'') (category orig)
      \<and> preferred_position r = orElse (extract_field body ''PREFERRED'') (preferred_position orig)
      \<and> rule_reasoning r = orElse (extract_field body ''REASONING'') (rule_reasoning orig)
      \<and> fallback_position r = orElseOpt (extract_field body ''FALLBACK'') (fallback_position orig)
      \<and> suggested_drafting r = orElseOpt (extract_field body ''DRAFTING'') (suggested_drafting orig)
      \<and> red (risk_criteria r) = orElse (extract_field body ''RISK_RED'') (red (risk_criteria orig))
      \<and> yellow (risk_criteria r) = orElse (extract_field body ''RISK_YELLOW'') (yellow (risk_criteria orig))
      \<and> green (risk_criteria r) = orElse (extract_field body ''RISK_GREEN'') (green (risk_criteria orig))
      \<and> (\<not> labelPresent ''TOPIC'' body \<longrightarrow> topic r = topic orig)
      \<and> (\<not> labelPresent ''CATEGORY'' body \<longrightarrow> category r = category orig)
      \<and> (\<not> labelPresent ''PREFERRED'' body \<longrightarrow> preferred_position r = preferred_position orig)
      \<and> (\<not> labelPresent ''REASONING'' body \<longrightarrow> rule_reasoning r = rule_reasoning orig)
      \<and> (\<not> labelPresent ''FALLBACK'' body \<longrightarrow> fallback_position r = fallback_position orig)
      \<and> (\<not> labelPresent ''DRAFTING'' body \<longrightarrow> suggested_drafting r = suggested_drafting orig)
      \<and> (\<not> labelPresent ''RISK_RED'' body \<longrightarrow> red (risk_criteria r) = red (risk_criteria orig))
      \<and> (\<not> labelPresent ''RISK_YELLOW'' body \<longrightarrow> yellow (risk_criteria r) = yellow (risk_criteria orig))
      \<and> (\<not> labelPresent ''RISK_GREEN'' body \<longrightarrow> green (risk_criteria r) = green (risk_criteria orig))
      \<and> (\<forall>key v. extract_field body key = Some v \<longrightarrow> sublist v body \<and> sublist v src)"
proof -
  from parseRuleIR_mem[OF assms] obtain ident body orig where
    blk: "(ident, body) \<in> set (ruleBlocks src)"
    and fnd: "find (\<lambda>r. rule_id r = Some ident) originalRules = Some orig"
    and r: "r = applyRuleBody orig body"
    by blast
  have rec: "ruleRecordIn src ident body" using blk by (rule ruleBlocks_shape)
  then have "sublist body src"
    unfolding ruleRecordIn_def sublist_def by (metis append.assoc)
  then have sub: "\<forall>key v. extract_field body key = Some v \<longrightarrow> sublist v body \<and> sublist v src"
    using extract_field_sublist sublist_order.order_trans by blast
  have orig: "orig \<in> set originalRules" "rule_id orig = Some ident"
    using find_Some_mem[OF fnd] by simp_all
  have absent: "\<not> labelPresent key body \<Longrightarrow> orElse (extract_field body key) d = d"
    "\<not> labelPresent key body \<Longrightarrow> orElseOpt (extract_field body key) d' = d'" for key d d'
    using extract_field_None_iff[of body key] by (simp_all add: orElse_def orElseOpt_def truthy_def)
  show ?thesis
    apply (rule exI[of _ ident], rule exI[of _ body], rule exI[of _ orig])
    unfolding r applyRuleBody_fields
    using rec orig sub absent by simp
qed

lemma parse_update_text: "parseRuleIR update_text [rule1] = [rule1_updated]"
  by code_simp

theorem parseRuleIR_frame_witness:
  "rule1_updated \<in> set (parseRuleIR update_text [rule1])
   \<and> topic rule1_updated \<noteq> topic rule1
   \<and> (\<exists>ident body. ruleRecordIn update_text ident body \<and> rule_id rule1_updated = Some ident
        \<and> topic rule1_updated = orElse (extract_field body ''TOPIC'') (topic rule1)
        \<and> risk_criteria rule1_updated = risk_criteria rule1)
   \<and> preferred_position rule1_updated = preferred_position rule1
   \<and> parseRuleIR update_text [rule1] = [rule1_updated]"
proof -
  have m: "rule1_updated \<in> set (parseRuleIR update_text [rule1])"
    by (simp add: parse_update_text)
  from parseRuleIR_frame[OF m] obtain ident body orig where
    "ruleRecordIn update_text ident body" "orig \<in> set [rule1]" "rule_id rule1_updated = Some ident"
    "topic rule1_updated = orElse (extract_field body ''TOPIC'') (topic orig)"
    by blast
  moreover have "topic rule1_updated \<noteq> topic rule1" "risk_criteria rule1_updated = risk_criteria rule1"
    "preferred_position rule1_updated = preferred_position rule1"
    by (simp_all add: rule1_updated_def rule1_def)
  ultimately show ?thesis using m parse_update_text by auto
qed


section \<open>Properties of updateClause\<close>

subsection \<open>The switch to track changes\<close>

lemma enableTrackChanges_simps [simp]:
  "ready (enableTrackChanges ed) = ready ed" "doc (enableTrackChanges ed) = doc ed"
  "dispatched (enableTrackChanges ed) = dispatched ed"
  "console (enableTrackChanges ed) = console ed @ trackChangesErrors ed"
  "modeApi (enableTrackChanges ed) = modeApi ed"
  "modeSwitchThrows (enableTrackChanges ed) = modeSwitchThrows ed"
  by (simp_all add: enableTrackChanges_def trackChangesErrors_def logc_def split: mode_api.splits)

lemma trackChangesErrors_logc [simp]: "trackChangesErrors (logc es ed) = trackChangesErrors ed"
  by (simp add: trackChangesErrors_def logc_def)

lemma trackChangesErrors_update [simp]:
  "trackChangesErrors (ed\<lparr>console := c\<rparr>) = trackChangesErrors ed"
  "trackChangesErrors (ed\<lparr>doc := d\<rparr>) = trackChangesErrors ed"
  "trackChangesErrors (ed\<lparr>dispatched := ds\<rparr>) = trackChangesErrors ed"
  by (simp_all add: trackChangesErrors_def)

subsection \<open>The position map\<close>

lemma textOf_append [simp]: "textOf (xs @ ys) = textOf xs @ textOf ys"
  by (induction xs rule: textOf.induct) simp_all

lemma textOf_map_Chr [simp]: "textOf (map Chr s) = s"
  by (induction s) simp_all

lemma buildPositionMap_snd: "snd (buildPositionMap q ts) = textOf ts"
  by (induction q ts rule: buildPositionMap.induct) (simp_all add: split_beta)

lemma buildPositionMap_shift:
  "fst (buildPositionMap q ts) = map (\<lambda>r. q + r) (fst (buildPositionMap 0 ts))"
proof (induction ts arbitrary: q)
  case Nil
  show ?case by simp
next
  case (Cons t ts)
  have a: "fst (buildPositionMap (Suc q) ts) = map (\<lambda>r. Suc q + r) (fst (buildPositionMap 0 ts))"
    by (rule Cons)
  have b: "fst (buildPositionMap (Suc 0) ts) = map (\<lambda>r. Suc 0 + r) (fst (buildPositionMap 0 ts))"
    by (rule Cons)
  show ?case
    by (cases t) (simp_all add: a b split_beta)
qed

lemma buildPositionMap_length: "length (fst (buildPositionMap q ts)) = length (textOf ts)"
  by (induction q ts rule: buildPositionMap.induct) (simp_all add: split_beta)

lemma chrPositions_simps [simp]:
  "chrPositions [] = []"
  "chrPositions (Chr c # ts) = 0 # map Suc (chrPositions ts)"
  "chrPositions (Struct # ts) = map Suc (chrPositions ts)"
  "chrPositions (Open a # ts) = map Suc (chrPositions ts)"
  "chrPositions (Close # ts) = map Suc (chrPositions ts)"
  using buildPositionMap_shift[of "Suc 0" ts]
  by (simp_all add: chrPositions_def split_beta)

lemma chrPositions_length [simp]: "length (chrPositions ts) = length (textOf ts)"
  by (simp add: chrPositions_def buildPositionMap_length)

lemma chrPositions_nth:
  "i < length (textOf ts) \<Longrightarrow>
     chrPositions ts ! i < length ts \<and> ts ! (chrPositions ts ! i) = Chr (textOf ts ! i)
     \<and> textOf (take (chrPositions ts ! i) ts) = take i (textOf ts)"
proof (induction ts arbitrary: i)
  case Nil
  then show ?case by simp
next
  case (Cons t ts)
  show ?case
  proof (cases t)
    case (Chr c)
    show ?thesis
    proof (cases i)
      case 0
      then show ?thesis using Chr by simp
    next
      case (Suc j)
      with Cons.prems Chr have j: "j < length (textOf ts)" by simp
      from Cons.IH[OF j] show ?thesis using Chr Suc j by simp
    qed
  next
    case Struct
    with Cons.prems have i: "i < length (textOf ts)" by simp
    from Cons.IH[OF i] show ?thesis using Struct i by simp
  next
    case (Open a)
    with Cons.prems have i: "i < length (textOf ts)" by simp
    from Cons.IH[OF i] show ?thesis using Open i by simp
  next
    case Close
    with Cons.prems have i: "i < length (textOf ts)" by simp
    from Cons.IH[OF i] show ?thesis using Close i by simp
  qed
qed

lemma chrPositions_after:
  assumes "i < length (textOf ts)"
  shows "textOf (take (chrPositions ts ! i + 1) ts) = take (Suc i) (textOf ts)"
proof -
  from chrPositions_nth[OF assms] have k: "chrPositions ts ! i < length ts"
    and c: "ts ! (chrPositions ts ! i) = Chr (textOf ts ! i)"
    and t: "textOf (take (chrPositions ts ! i) ts) = take i (textOf ts)"
    by simp_all
  have "take (chrPositions ts ! i + 1) ts = take (chrPositions ts ! i) ts @ [Chr (textOf ts ! i)]"
    using k c by (simp add: take_Suc_conv_app_nth)
  then show ?thesis using t assms by (simp add: take_Suc_conv_app_nth)
qed

lemma textOf_take_mono: "a \<le> b \<Longrightarrow> length (textOf (take a ts)) \<le> length (textOf (take b ts))"
proof -
  assume "a \<le> b"
  then have "take b ts = take a ts @ take (b - a) (drop a ts)"
    by (metis le_add_diff_inverse take_add)
  then show ?thesis by simp
qed

lemma chrPositions_strict:
  assumes "Suc i < length (textOf ts)"
  shows "chrPositions ts ! i + 1 \<le> chrPositions ts ! Suc i"
proof (rule ccontr)
  assume "\<not> chrPositions ts ! i + 1 \<le> chrPositions ts ! Suc i"
  then have "chrPositions ts ! Suc i \<le> chrPositions ts ! i" by simp
  from textOf_take_mono[OF this, of ts]
  have "length (take (Suc i) (textOf ts)) \<le> length (take i (textOf ts))"
    using chrPositions_nth[OF assms] chrPositions_nth[of i ts] assms by simp
  with assms show False by simp
qed

lemma boundary_text:
  assumes "textOf ts \<noteq> []" "ti \<le> length (textOf ts)"
  shows "boundary (chrPositions ts) ti \<le> length ts
     \<and> textOf (take (boundary (chrPositions ts) ti) ts) = take ti (textOf ts)"
proof (cases "ti < length (textOf ts)")
  case True
  then show ?thesis using chrPositions_nth[OF True] by (simp add: boundary_def)
next
  case False
  with assms have ti: "ti = length (textOf ts)" by simp
  let ?n = "length (textOf ts)"
  from assms(1) have n: "?n - 1 < ?n" by (cases "textOf ts") simp_all
  from chrPositions_nth[OF n] chrPositions_after[OF n] show ?thesis
    using ti n by (simp add: boundary_def)
qed

lemma boundary_mono:
  assumes "textOf ts \<noteq> []" "ti \<le> tj" "tj \<le> length (textOf ts)"
  shows "boundary (chrPositions ts) ti \<le> boundary (chrPositions ts) tj"
proof (rule ccontr)
  assume "\<not> ?thesis"
  then have lt: "boundary (chrPositions ts) tj < boundary (chrPositions ts) ti" by simp
  have i: "ti \<le> length (textOf ts)" using assms by simp
  from boundary_text[OF assms(1) i] boundary_text[OF assms(1,3)]
  have bi: "textOf (take (boundary (chrPositions ts) ti) ts) = take ti (textOf ts)"
    and bj: "textOf (take (boundary (chrPositions ts) tj) ts) = take tj (textOf ts)"
    and le: "boundary (chrPositions ts) ti \<le> length ts"
    by simp_all
  show False
  proof (cases "ti = tj")
    case True
    with lt show False by simp
  next
    case False
    with assms have tij: "ti < tj" by simp
    then have ti_lt: "ti < length (textOf ts)" using assms by simp
    then have bnd_i: "boundary (chrPositions ts) ti = chrPositions ts ! ti" by (simp add: boundary_def)
    from lt have "boundary (chrPositions ts) tj + 1 \<le> chrPositions ts ! ti + 1 - 1 + 1" using bnd_i by simp
    from textOf_take_mono[of "boundary (chrPositions ts) tj" "chrPositions ts ! ti" ts] lt bnd_i
    have "length (take tj (textOf ts)) \<le> length (take ti (textOf ts))"
      using bi bj by simp
    with tij assms show False by simp
  qed
qed

subsection \<open>One diff segment\<close>

text \<open>
  Each kind of segment keeps the invariant \<open>synced\<close>: an EQUAL segment moves both cursors over
  text that stays, an INSERT segment puts its token at the cursor, and a DELETE segment removes
  the positions from the first to the last character of its token.
\<close>

lemma tr_delete_mid:
  assumes "tr_doc t = A @ X @ R" "x < y" "y \<le> length X"
  shows "\<exists>t'. tr_delete t (Some (int (length A) + int x)) (Some (int (length A) + int y)) = Inr t'
     \<and> tr_doc t' = A @ (take x X @ drop y X) @ R"
proof -
  have "nat (int (length A) + int x) = length A + x" "nat (int (length A) + int y) = length A + y"
    by simp_all
  then show ?thesis using assms by (simp add: tr_delete_def)
qed

lemma tr_insertText_mid:
  assumes "tr_doc t = A @ X @ R" "x \<le> length X"
  shows "\<exists>t'. tr_insertText t s (int (length A) + int x) = Inr t'
     \<and> tr_doc t' = A @ (take x X @ map Chr s @ drop x X) @ R"
proof -
  have "nat (int (length A) + int x) = length A + x" by simp
  then show ?thesis using assms by (auto simp add: tr_insertText_def)
qed

lemma flat_subset: "flat X \<Longrightarrow> set Y \<subseteq> set X \<union> range Chr \<Longrightarrow> flat Y"
  by (auto simp add: flat_def)

lemma positionMap_nth:
  "i < length (textOf C) \<Longrightarrow> fst (buildPositionMap q C) ! i = q + chrPositions C ! i"
  using buildPositionMap_shift[of q C] buildPositionMap_length[of 0 C]
  by (simp add: chrPositions_def)

lemma positionMap_boundary:
  assumes "textOf C \<noteq> []" "ti \<le> length (textOf C)"
  shows "(if ti < length (fst (buildPositionMap q C)) then fst (buildPositionMap q C) ! ti
          else fst (buildPositionMap q C) ! (length (fst (buildPositionMap q C)) - 1) + 1)
         = q + boundary (chrPositions C) ti"
proof -
  let ?n = "length (textOf C)"
  from assms(1) have "?n - 1 < ?n" by (cases "textOf C") simp_all
  then show ?thesis
    by (simp add: buildPositionMap_length boundary_def positionMap_nth)
qed

lemma apply_part_equal:
  assumes syn: "synced A C R s e" and ne: "textOf C \<noteq> []"
    and op: "part_op p = DIFF_EQUAL"
    and ptx: "part_text p = take (length (part_text p)) (drop (textIndex s) (textOf C))"
    and len: "textIndex s + length (part_text p) \<le> length (textOf C)"
  shows "\<exists>s'. apply_part (fst (buildPositionMap (length A) C)) s p = Inr s'
     \<and> synced A C R s' (e @ part_text p) \<and> textIndex s' = textIndex s + length (part_text p)"
proof -
  let ?cs = "chrPositions C" and ?b = "textOf C" and ?ti = "textIndex s" and ?l = "length (part_text p)"
  let ?\<beta> = "boundary ?cs ?ti" and ?\<beta>' = "boundary ?cs (?ti + ?l)"
  from syn obtain X x where X: "tr_doc (tr s) = A @ X @ R" and ti: "?ti \<le> length ?b"
    and off: "mapOffset s = int x - int ?\<beta>" and x: "x \<le> length X"
    and dr: "drop x X = drop ?\<beta> C" and tx: "textOf (take x X) = e" and fl: "flat C \<longrightarrow> flat X"
    unfolding synced_def by blast
  let ?s' = "s\<lparr>textIndex := ?ti + ?l\<rparr>"
  have ap: "apply_part (fst (buildPositionMap (length A) C)) s p = Inr ?s'"
    by (simp add: apply_part_def op Let_def)
  have mono: "?\<beta> \<le> ?\<beta>'" using boundary_mono[OF ne _ len, of ?ti] by simp
  have b': "?\<beta>' \<le> length C" "textOf (take ?\<beta>' C) = take (?ti + ?l) ?b"
    using boundary_text[OF ne len] by simp_all
  have b0: "?\<beta> \<le> length C" "textOf (take ?\<beta> C) = take ?ti ?b"
    using boundary_text[OF ne ti] by simp_all
  let ?x' = "x + (?\<beta>' - ?\<beta>)"
  have lenX: "length X - x = length C - ?\<beta>"
    using arg_cong[OF dr, of length] by simp
  have x': "?x' \<le> length X" using lenX b' mono x by linarith
  have dr': "drop ?x' X = drop ?\<beta>' C"
  proof -
    have "drop ?x' X = drop (?\<beta>' - ?\<beta>) (drop x X)" by (simp add: add.commute)
    also have "\<dots> = drop (?\<beta>' - ?\<beta>) (drop ?\<beta> C)" by (simp only: dr)
    also have "\<dots> = drop ?\<beta>' C" using mono by simp
    finally show ?thesis .
  qed
  have seg: "textOf (take (?\<beta>' - ?\<beta>) (drop ?\<beta> C)) = part_text p"
  proof -
    have "take ?\<beta>' C = take ?\<beta> C @ take (?\<beta>' - ?\<beta>) (drop ?\<beta> C)"
      using mono by (metis le_add_diff_inverse take_add)
    then have "take (?ti + ?l) ?b = take ?ti ?b @ textOf (take (?\<beta>' - ?\<beta>) (drop ?\<beta> C))"
      using b'(2) b0(2) by (metis textOf_append)
    moreover have "take (?ti + ?l) ?b = take ?ti ?b @ take ?l (drop ?ti ?b)"
      by (simp add: take_add)
    ultimately show ?thesis using ptx by simp
  qed
  have tx': "textOf (take ?x' X) = e @ part_text p"
  proof -
    have "take ?x' X = take x X @ take (?\<beta>' - ?\<beta>) (drop x X)" by (simp add: take_add)
    then show ?thesis using tx seg dr by simp
  qed
  have off': "mapOffset ?s' = int ?x' - int ?\<beta>'" using off mono by simp
  have "synced A C R ?s' (e @ part_text p)"
    unfolding synced_def
    using X len off' x' dr' tx' fl
    by (intro exI[of _ X] exI[of _ ?x']) simp
  with ap show ?thesis by simp
qed

lemma apply_part_insert:
  assumes syn: "synced A C R s e" and ne: "textOf C \<noteq> []"
    and op: "part_op p = DIFF_INSERT"
  shows "\<exists>s'. apply_part (fst (buildPositionMap (length A) C)) s p = Inr s'
     \<and> synced A C R s' (e @ part_text p) \<and> textIndex s' = textIndex s"
proof -
  let ?cs = "chrPositions C" and ?b = "textOf C" and ?ti = "textIndex s" and ?l = "length (part_text p)"
  let ?\<beta> = "boundary ?cs ?ti" and ?m = "fst (buildPositionMap (length A) C)"
  from syn obtain X x where X: "tr_doc (tr s) = A @ X @ R" and ti: "?ti \<le> length ?b"
    and off: "mapOffset s = int x - int ?\<beta>" and x: "x \<le> length X"
    and dr: "drop x X = drop ?\<beta> C" and tx: "textOf (take x X) = e" and fl: "flat C \<longrightarrow> flat X"
    unfolding synced_def by blast
  have base: "(if ?ti < length ?m then ?m ! ?ti else ?m ! (length ?m - 1) + 1) = length A + ?\<beta>"
    by (rule positionMap_boundary[OF ne ti])
  have pos: "int (length A + ?\<beta>) + mapOffset s = int (length A) + int x"
    using off by simp
  from tr_insertText_mid[OF X x, of "part_text p"] obtain t' where
    t': "tr_insertText (tr s) (part_text p) (int (length A) + int x) = Inr t'"
    and d': "tr_doc t' = A @ (take x X @ map Chr (part_text p) @ drop x X) @ R"
    by blast
  let ?s' = "s\<lparr>tr := t', mapOffset := mapOffset s + int ?l\<rparr>"
  let ?X' = "take x X @ map Chr (part_text p) @ drop x X"
  have ap: "apply_part ?m s p = Inr ?s'"
    by (simp add: apply_part_def op Let_def base pos t' del: of_nat_add)
  have l1: "length (take x X) = x" using x by simp
  have dr': "drop (x + ?l) ?X' = drop ?\<beta> C"
    using l1 dr by (simp add: drop_append)
  have tx': "textOf (take (x + ?l) ?X') = e @ part_text p"
    using l1 tx by (simp add: take_append)
  have fl': "flat C \<longrightarrow> flat ?X'"
  proof
    assume "flat C"
    with fl have "flat X" by simp
    moreover have "set ?X' \<subseteq> set X \<union> range Chr"
      using set_take_subset[of x X] set_drop_subset[of x X] by auto
    ultimately show "flat ?X'" by (rule flat_subset)
  qed
  have "synced A C R ?s' (e @ part_text p)"
    unfolding synced_def
    using d' ti off x dr' tx' fl'
    by (intro exI[of _ ?X'] exI[of _ "x + ?l"]) simp
  with ap show ?thesis by simp
qed

lemma apply_part_delete:
  assumes syn: "synced A C R s e" and ne: "textOf C \<noteq> []"
    and op: "part_op p = DIFF_DELETE"
    and pos: "part_text p \<noteq> []"
    and len: "textIndex s + length (part_text p) \<le> length (textOf C)"
  shows "\<exists>s'. apply_part (fst (buildPositionMap (length A) C)) s p = Inr s'
     \<and> synced A C R s' e \<and> textIndex s' = textIndex s + length (part_text p)"
proof -
  let ?cs = "chrPositions C" and ?b = "textOf C" and ?ti = "textIndex s" and ?l = "length (part_text p)"
  let ?n = "length (textOf C)"
  let ?\<beta> = "boundary ?cs ?ti" and ?\<beta>' = "boundary ?cs (?ti + ?l)"
  let ?m = "fst (buildPositionMap (length A) C)"
  let ?j = "?ti + ?l - 1"
  let ?E = "?cs ! ?j + 1"
  from syn obtain X x where X: "tr_doc (tr s) = A @ X @ R" and ti: "?ti \<le> ?n"
    and off: "mapOffset s = int x - int ?\<beta>" and x: "x \<le> length X"
    and dr: "drop x X = drop ?\<beta> C" and tx: "textOf (take x X) = e" and fl: "flat C \<longrightarrow> flat X"
    unfolding synced_def by blast
  from pos have l: "0 < ?l" by simp
  from l len have ti_lt: "?ti < ?n" and j_lt: "?j < ?n" and tij: "?ti \<le> ?j" by linarith+
  have bti: "?\<beta> = ?cs ! ?ti" using ti_lt by (simp add: boundary_def)
  have bj: "boundary ?cs ?j = ?cs ! ?j" using j_lt by (simp add: boundary_def)
  have bE: "?\<beta> < ?E"
    using boundary_mono[OF ne tij] j_lt bj by simp
  have Ele: "?E \<le> length C" "textOf (take ?E C) = take (?ti + ?l) ?b"
    using chrPositions_nth[OF j_lt] chrPositions_after[OF j_lt] l by simp_all
  have b': "?\<beta>' \<le> length C" "textOf (take ?\<beta>' C) = take (?ti + ?l) ?b"
    using boundary_text[OF ne len] by simp_all
  have Eb': "?E \<le> ?\<beta>'"
  proof (cases "?ti + ?l < ?n")
    case True
    then have "Suc ?j < ?n" using l by simp
    from chrPositions_strict[OF this] show ?thesis using True l by (simp add: boundary_def)
  next
    case False
    with len have "?ti + ?l = ?n" by simp
    then show ?thesis by (simp add: boundary_def)
  qed
  have lenX: "length X - x = length C - ?\<beta>"
    using arg_cong[OF dr, of length] by simp
  let ?y = "x + (?E - ?\<beta>)"
  have xy: "x < ?y" using bE by simp
  have y: "?y \<le> length X" using lenX Ele(1) bE x by linarith
  have lm: "length ?m = ?n" by (rule buildPositionMap_length)
  have e1: "min (int ?ti + int ?l - 1) (int (length ?m) - 1) = int ?j"
    using l j_lt lm by linarith
  have jsI: "jsIndex ?m (int k) = Some (int (length A + ?cs ! k))" if "k < ?n" for k
  proof -
    have "0 \<le> int k \<and> int k < int (length ?m)" using that lm by linarith
    moreover have "?m ! nat (int k) = length A + ?cs ! k"
      using positionMap_nth[OF that, of "length A"] by simp
    ultimately show ?thesis unfolding jsIndex_def by (simp only: if_True simp_thms)
  qed
  have i1: "jsIndex ?m (int ?ti) = Some (int (length A + ?\<beta>))"
    using jsI[OF ti_lt] bti by simp
  have i2: "jsIndex ?m (int ?j) = Some (int (length A + ?cs ! ?j))"
    by (rule jsI[OF j_lt])
  have from_eq: "int (length A + ?\<beta>) + mapOffset s = int (length A) + int x"
    using off by simp
  have to_eq: "int (length A + ?cs ! ?j) + 1 + mapOffset s = int (length A) + int ?y"
    using off bE by simp
  from tr_delete_mid[OF X xy y] obtain t' where
    t': "tr_delete (tr s) (Some (int (length A) + int x)) (Some (int (length A) + int ?y)) = Inr t'"
    and d': "tr_doc t' = A @ (take x X @ drop ?y X) @ R"
    by blast
  let ?off' = "mapOffset s - (int (length A) + int ?y - (int (length A) + int x))"
  let ?s' = "s\<lparr>tr := t', mapOffset := ?off', textIndex := ?ti + ?l\<rparr>"
  let ?X' = "take x X @ drop ?y X"
  have A1: "map_option (\<lambda>v. v + mapOffset s) (jsIndex ?m (int ?ti)) = Some (int (length A) + int x)"
    unfolding i1 using from_eq by simp
  have A2: "map_option (\<lambda>v. v + mapOffset s) (map_option (\<lambda>v. v + 1)
              (jsIndex ?m (min (int ?ti + int ?l - 1) (int (length ?m) - 1))))
            = Some (int (length A) + int ?y)"
    unfolding e1 i2 using to_eq by simp
  have ap: "apply_part ?m s p = Inr ?s'"
    unfolding apply_part_def Let_def
    by (simp only: op diff_op.case A1 A2 t' sum.case option.sel)
  let ?x' = "x + (?\<beta>' - ?E)"
  have l1: "length (take x X) = x" using x by simp
  have dy: "drop ?y X = drop ?E C"
  proof -
    have "drop ?y X = drop (?E - ?\<beta>) (drop x X)" by (simp add: add.commute)
    also have "\<dots> = drop (?E - ?\<beta>) (drop ?\<beta> C)" by (simp only: dr)
    also have "\<dots> = drop ?E C" using bE by simp
    finally show ?thesis .
  qed
  have dr': "drop ?x' ?X' = drop ?\<beta>' C"
  proof -
    have "drop ?x' ?X' = drop (?\<beta>' - ?E) (drop ?y X)" using l1 by (simp add: drop_append)
    also have "\<dots> = drop (?\<beta>' - ?E) (drop ?E C)" by (simp only: dy)
    also have "\<dots> = drop ?\<beta>' C" using Eb' by simp
    finally show ?thesis .
  qed
  have gap: "textOf (take (?\<beta>' - ?E) (drop ?E C)) = []"
  proof -
    have "take ?\<beta>' C = take ?E C @ take (?\<beta>' - ?E) (drop ?E C)"
      using Eb' by (metis le_add_diff_inverse take_add)
    then have "take (?ti + ?l) ?b = take (?ti + ?l) ?b @ textOf (take (?\<beta>' - ?E) (drop ?E C))"
      using b'(2) Ele(2) by (metis textOf_append)
    then show ?thesis by simp
  qed
  have tx': "textOf (take ?x' ?X') = e"
    using l1 tx gap dy by (simp add: take_append)
  have x': "?x' \<le> length ?X'"
  proof -
    have "length ?X' = x + (length X - ?y)" using x by simp
    moreover have "length X - ?y = length C - ?E" using arg_cong[OF dy, of length] by simp
    ultimately show ?thesis using b'(1) Eb' by linarith
  qed
  have off': "?off' = int ?x' - int ?\<beta>'" using off bE Eb' by simp
  have fl': "flat C \<longrightarrow> flat ?X'"
  proof
    assume "flat C"
    with fl have "flat X" by simp
    moreover have "set ?X' \<subseteq> set X \<union> range Chr"
      using set_take_subset[of x X] set_drop_subset[of ?y X] by auto
    ultimately show "flat ?X'" by (rule flat_subset)
  qed
  have "synced A C R ?s' e"
    unfolding synced_def
    using d' len off' x' dr' tx' fl'
    by (intro exI[of _ ?X'] exI[of _ ?x']) simp
  with ap show ?thesis by simp
qed

subsection \<open>The loop over the diff\<close>

lemma synced_textIndex: "synced A C R s e \<Longrightarrow> textIndex s \<le> length (textOf C)"
  unfolding synced_def by blast

lemma append_eq_drop:
  assumes "u @ v = drop k b"
  shows "u = take (length u) (drop k b)" "k + length u \<le> length b \<or> u = []" "v = drop (k + length u) b"
proof -
  show "u = take (length u) (drop k b)" using assms by (metis append_eq_conv_conj)
  show "v = drop (k + length u) b" using assms by (metis append_eq_conv_conj drop_drop add.commute)
  have "length u \<le> length (drop k b)" using assms by (metis length_append le_add1)
  then have "length u \<le> length b - k" by simp
  moreover have "u \<noteq> [] \<Longrightarrow> 0 < length u" by simp
  ultimately show "k + length u \<le> length b \<or> u = []" by (cases "u = []") (simp, linarith)
qed

lemma build_synced:
  assumes "synced A C R s e" "textOf C \<noteq> []"
    and "original_of ds = drop (textIndex s) (textOf C)"
    and "\<forall>d \<in> set ds. part_op d = DIFF_DELETE \<longrightarrow> part_text d \<noteq> []"
  shows "\<exists>s'. build (fst (buildPositionMap (length A) C)) s ds = Inr s'
     \<and> synced A C R s' (e @ proposed_of ds) \<and> textIndex s' = length (textOf C)"
  using assms
proof (induction ds arbitrary: s e)
  case Nil
  from Nil.prems(3) have "length (textOf C) \<le> textIndex s" by simp
  with synced_textIndex[OF Nil.prems(1)] have "textIndex s = length (textOf C)" by simp
  with Nil.prems(1) show ?case by simp
next
  case (Cons p ps)
  let ?m = "fst (buildPositionMap (length A) C)"
  have del: "\<forall>d \<in> set ps. part_op d = DIFF_DELETE \<longrightarrow> part_text d \<noteq> []"
    using Cons.prems(4) by simp
  have step: "\<exists>s1. apply_part ?m s p = Inr s1
      \<and> synced A C R s1 (e @ (if part_op p = DIFF_DELETE then [] else part_text p))
      \<and> original_of ps = drop (textIndex s1) (textOf C)"
  proof (cases "part_op p")
    case DIFF_INSERT
    from apply_part_insert[OF Cons.prems(1,2) DIFF_INSERT] Cons.prems(3) DIFF_INSERT
    show ?thesis by auto
  next
    case DIFF_EQUAL
    with Cons.prems(3) have eq: "part_text p @ original_of ps = drop (textIndex s) (textOf C)"
      by simp
    note a = append_eq_drop[OF eq]
    have len: "textIndex s + length (part_text p) \<le> length (textOf C)"
      using a(2) synced_textIndex[OF Cons.prems(1)] by auto
    from apply_part_equal[OF Cons.prems(1,2) DIFF_EQUAL a(1) len] a(3) DIFF_EQUAL
    show ?thesis by auto
  next
    case DIFF_DELETE
    with Cons.prems(3) have eq: "part_text p @ original_of ps = drop (textIndex s) (textOf C)"
      by simp
    note a = append_eq_drop[OF eq]
    have ne: "part_text p \<noteq> []" using Cons.prems(4) DIFF_DELETE by simp
    have len: "textIndex s + length (part_text p) \<le> length (textOf C)"
      using a(2) ne by auto
    from apply_part_delete[OF Cons.prems(1,2) DIFF_DELETE ne len] a(3) DIFF_DELETE
    show ?thesis by auto
  qed
  then obtain s1 where s1: "apply_part ?m s p = Inr s1"
    and syn1: "synced A C R s1 (e @ (if part_op p = DIFF_DELETE then [] else part_text p))"
    and rest: "original_of ps = drop (textIndex s1) (textOf C)"
    by blast
  from Cons.IH[OF syn1 Cons.prems(2) rest del] obtain s' where
    "build ?m s1 ps = Inr s'"
    "synced A C R s' ((e @ (if part_op p = DIFF_DELETE then [] else part_text p)) @ proposed_of ps)"
    "textIndex s' = length (textOf C)"
    by blast
  then show ?case using s1 by simp
qed

subsection \<open>Locating the block\<close>

lemma contentOf_prefix: "ts = contentOf d ts @ drop (length (contentOf d ts)) ts"
  by (induction d ts rule: contentOf.induct) simp_all

lemma contentOf_flat_append: "flat xs \<Longrightarrow> contentOf d (xs @ ys) = xs @ contentOf d ys"
proof (induction xs)
  case Nil
  show ?case by simp
next
  case (Cons t ts)
  then have "flat ts" by (simp add: flat_def)
  with Cons show ?case by (cases t) (simp_all add: flat_def)
qed

lemma scan_step_pos [simp]: "scan_pos (scan_step cid s t) = scan_pos s + 1"
  by (simp add: scan_step_def split: token.splits)

lemma scan_pos_foldl [simp]: "scan_pos (foldl (scan_step cid) s ts) = scan_pos s + length ts"
  by (induction ts arbitrary: s) simp_all

lemma scan_flat: "flat ts \<Longrightarrow> foldl (scan_step cid) s ts = s\<lparr>scan_pos := scan_pos s + length ts\<rparr>"
proof (induction ts arbitrary: s)
  case Nil
  show ?case by simp
next
  case (Cons t ts)
  then have f: "flat ts" and t: "t \<noteq> Close" "\<forall>a. t \<noteq> Open a" by (simp_all add: flat_def)
  have "scan_step cid s t = s\<lparr>scan_pos := scan_pos s + 1\<rparr>"
    using t by (cases t) (simp_all add: scan_step_def)
  then show ?case using Cons.IH[OF f] by simp
qed

lemma scan_found:
  "clausePos (foldl (scan_step cid) s ts) = Some p \<Longrightarrow>
     clausePos s = Some p
     \<or> (scan_pos s \<le> p \<and> p < scan_pos s + length ts
        \<and> (\<exists>a. ts ! (p - scan_pos s) = Open a \<and> node_id a = Some cid))"
proof (induction ts arbitrary: s)
  case Nil
  then show ?case by simp
next
  case (Cons t ts)
  from Cons.IH[of "scan_step cid s t"] Cons.prems
  consider (old) "clausePos (scan_step cid s t) = Some p"
    | (new) "scan_pos s + 1 \<le> p" "p < scan_pos s + 1 + length ts"
        "\<exists>a. ts ! (p - (scan_pos s + 1)) = Open a \<and> node_id a = Some cid"
    by auto
  then show ?case
  proof cases
    case old
    then have "clausePos s = Some p \<or> (p = scan_pos s \<and> (\<exists>a. t = Open a \<and> node_id a = Some cid))"
      by (auto simp add: scan_step_def split: token.splits if_splits)
    then show ?thesis by auto
  next
    case new
    from new(1) have "p - scan_pos s = Suc (p - (scan_pos s + 1))" by simp
    with new show ?thesis by auto
  qed
qed

lemma locate_Some:
  assumes "locate cid d = Some p"
  shows "p < length d \<and> (\<exists>a. d ! p = Open a \<and> node_id a = Some cid)"
  using scan_found[of cid "\<lparr>scan_pos = 0, scan_skip = 0, clausePos = None\<rparr>" d p] assms
  by (simp add: locate_def)

lemma scan_related:
  assumes "scan_skip s = scan_skip s'"
  shows "scan_skip (foldl (scan_step cid) s ts) = scan_skip (foldl (scan_step cid) s' ts)
    \<and> ((clausePos (foldl (scan_step cid) s ts) = clausePos s
          \<and> clausePos (foldl (scan_step cid) s' ts) = clausePos s')
        \<or> (\<exists>j. clausePos (foldl (scan_step cid) s ts) = Some (scan_pos s + j)
              \<and> clausePos (foldl (scan_step cid) s' ts) = Some (scan_pos s' + j)))"
  using assms
proof (induction ts arbitrary: s s')
  case Nil
  then show ?case by simp
next
  case (Cons t ts)
  let ?s1 = "scan_step cid s t" and ?s1' = "scan_step cid s' t"
  have sk: "scan_skip ?s1 = scan_skip ?s1'"
    using Cons.prems by (simp add: scan_step_def split: token.splits)
  have st: "(clausePos ?s1 = clausePos s \<and> clausePos ?s1' = clausePos s')
      \<or> (clausePos ?s1 = Some (scan_pos s) \<and> clausePos ?s1' = Some (scan_pos s'))"
    using Cons.prems by (simp add: scan_step_def split: token.splits)
  from Cons.IH[OF sk] have
    ih: "scan_skip (foldl (scan_step cid) ?s1 ts) = scan_skip (foldl (scan_step cid) ?s1' ts)"
    "(clausePos (foldl (scan_step cid) ?s1 ts) = clausePos ?s1
          \<and> clausePos (foldl (scan_step cid) ?s1' ts) = clausePos ?s1')
        \<or> (\<exists>j. clausePos (foldl (scan_step cid) ?s1 ts) = Some (scan_pos ?s1 + j)
              \<and> clausePos (foldl (scan_step cid) ?s1' ts) = Some (scan_pos ?s1' + j))"
    by simp_all
  from ih(2) st have "(clausePos (foldl (scan_step cid) ?s1 ts) = clausePos s
          \<and> clausePos (foldl (scan_step cid) ?s1' ts) = clausePos s')
        \<or> (\<exists>j. clausePos (foldl (scan_step cid) ?s1 ts) = Some (scan_pos s + j)
              \<and> clausePos (foldl (scan_step cid) ?s1' ts) = Some (scan_pos s' + j))"
  proof (elim disjE conjE exE)
    fix j assume "clausePos (foldl (scan_step cid) ?s1 ts) = Some (scan_pos ?s1 + j)"
      "clausePos (foldl (scan_step cid) ?s1' ts) = Some (scan_pos ?s1' + j)"
    then have "clausePos (foldl (scan_step cid) ?s1 ts) = Some (scan_pos s + Suc j)"
      "clausePos (foldl (scan_step cid) ?s1' ts) = Some (scan_pos s' + Suc j)"
      by simp_all
    then show ?thesis by blast
  next
    fix j assume "clausePos (foldl (scan_step cid) ?s1 ts) = Some (scan_pos ?s1 + j)"
      "clausePos (foldl (scan_step cid) ?s1' ts) = Some (scan_pos ?s1' + j)"
    then have "clausePos (foldl (scan_step cid) ?s1 ts) = Some (scan_pos s + Suc j)"
      "clausePos (foldl (scan_step cid) ?s1' ts) = Some (scan_pos s' + Suc j)"
      by simp_all
    then show ?thesis by blast
  next
    assume "clausePos (foldl (scan_step cid) ?s1 ts) = clausePos ?s1"
      "clausePos (foldl (scan_step cid) ?s1' ts) = clausePos ?s1'"
      "clausePos ?s1 = Some (scan_pos s)" "clausePos ?s1' = Some (scan_pos s')"
    then have "clausePos (foldl (scan_step cid) ?s1 ts) = Some (scan_pos s + 0)"
      "clausePos (foldl (scan_step cid) ?s1' ts) = Some (scan_pos s' + 0)"
      by simp_all
    then show ?thesis by blast
  qed simp
  with ih(1) show ?case by simp
qed

lemma scan_step_status:
  "scan_step cid s (Open (a\<lparr>status := v\<rparr>)) = scan_step cid s (Open a)"
  by (simp add: scan_step_def)

lemma scan_update_status:
  "i < length ts \<Longrightarrow> ts ! i = Open a \<Longrightarrow>
     foldl (scan_step cid) s (ts[i := Open (a\<lparr>status := v\<rparr>)]) = foldl (scan_step cid) s ts"
proof (induction ts arbitrary: i s)
  case Nil
  then show ?case by simp
next
  case (Cons t ts)
  show ?case
  proof (cases i)
    case 0
    with Cons.prems show ?thesis by (simp add: scan_step_status)
  next
    case (Suc j)
    with Cons.prems Cons.IH[of j] show ?thesis by simp
  qed
qed

lemma locate_update_status:
  "i < length d \<Longrightarrow> d ! i = Open a \<Longrightarrow> locate cid (d[i := Open (a\<lparr>status := v\<rparr>)]) = locate cid d"
  by (simp add: locate_def scan_update_status)

lemma node_decomposition:
  assumes "p < length d"
  shows "d = take (p + 1) d @ nodeContent d p @ drop (p + 1 + length (nodeContent d p)) d"
    and "length (take (p + 1) d) = p + 1"
proof -
  have "drop (p + 1) d = nodeContent d p @ drop (length (nodeContent d p)) (drop (p + 1) d)"
    unfolding nodeContent_def by (rule contentOf_prefix)
  then have "drop (p + 1) d = nodeContent d p @ drop (p + 1 + length (nodeContent d p)) d"
    by (simp add: add.commute)
  then show "d = take (p + 1) d @ nodeContent d p @ drop (p + 1 + length (nodeContent d p)) d"
    by (metis append_take_drop_id)
  show "length (take (p + 1) d) = p + 1" using assms by simp
qed

lemma locate_after_edit:
  assumes loc: "locate cid (A @ C @ R) = Some p" and p: "p < length A"
    and "flat C" "flat X"
  shows "locate cid (A @ X @ R) = Some p"
proof -
  let ?i = "\<lparr>scan_pos = 0, scan_skip = 0, clausePos = None\<rparr>"
  let ?sA = "foldl (scan_step cid) ?i A"
  let ?sC = "?sA\<lparr>scan_pos := scan_pos ?sA + length C\<rparr>"
  let ?sX = "?sA\<lparr>scan_pos := scan_pos ?sA + length X\<rparr>"
  have c: "foldl (scan_step cid) ?i (A @ C @ R) = foldl (scan_step cid) ?sC R"
    using scan_flat[OF assms(3), of cid ?sA] by simp
  have x: "foldl (scan_step cid) ?i (A @ X @ R) = foldl (scan_step cid) ?sX R"
    using scan_flat[OF assms(4), of cid ?sA] by simp
  have "scan_skip ?sC = scan_skip ?sX" by simp
  from scan_related[OF this, of cid R]
  consider "clausePos (foldl (scan_step cid) ?sC R) = clausePos ?sC"
      "clausePos (foldl (scan_step cid) ?sX R) = clausePos ?sX"
    | j where "clausePos (foldl (scan_step cid) ?sC R) = Some (scan_pos ?sC + j)"
    by blast
  then show ?thesis
  proof cases
    case 1
    with loc c x show ?thesis by (simp add: locate_def)
  next
    case 2
    with loc c have "p = length A + length C + j" by (simp add: locate_def)
    with p show ?thesis by simp
  qed
qed

lemma synced_initial:
  assumes "textOf C \<noteq> []"
  shows "synced A C R (initial_build (A @ C @ R)) []"
proof -
  have n: "0 < length (textOf C)" using assms by simp
  then have b: "boundary (chrPositions C) 0 = chrPositions C ! 0" by (simp add: boundary_def)
  from chrPositions_nth[OF n] have "chrPositions C ! 0 < length C"
    "textOf (take (chrPositions C ! 0) C) = []" by simp_all
  then show ?thesis
    unfolding synced_def initial_build_def
    by (intro exI[of _ C] exI[of _ "chrPositions C ! 0"]) (simp add: b)
qed

lemma synced_final:
  assumes "synced A C R s e" "textIndex s = length (textOf C)" "textOf C \<noteq> []"
  shows "\<exists>X. tr_doc (tr s) = A @ X @ R \<and> textOf X = e \<and> (flat C \<longrightarrow> flat X)"
proof -
  let ?\<beta> = "boundary (chrPositions C) (textIndex s)"
  from assms(1) obtain X x where X: "tr_doc (tr s) = A @ X @ R"
    and dr: "drop x X = drop ?\<beta> C" and tx: "textOf (take x X) = e" and fl: "flat C \<longrightarrow> flat X"
    unfolding synced_def by blast
  from boundary_text[OF assms(3), of "textIndex s"] assms(2)
  have "textOf (take ?\<beta> C) = textOf C" by simp
  moreover have "textOf C = textOf (take ?\<beta> C) @ textOf (drop ?\<beta> C)"
    by (metis append_take_drop_id textOf_append)
  ultimately have "textOf (drop ?\<beta> C) = []" by simp
  moreover have "textOf X = textOf (take x X) @ textOf (drop x X)"
    by (metis append_take_drop_id textOf_append)
  ultimately have "textOf X = e" using tx dr by simp
  with X fl show ?thesis by blast
qed

subsection \<open>The run of updateClause on a text block\<close>

lemma tr_delete_steps:
  "tr_delete t f e = Inr t' \<Longrightarrow> \<forall>st \<in> set (steps t). isTextEdit st \<Longrightarrow> \<forall>st \<in> set (steps t'). isTextEdit st"
  by (auto simp add: tr_delete_def isTextEdit_def split: option.splits if_splits)

lemma tr_insertText_steps:
  "tr_insertText t s p = Inr t' \<Longrightarrow> \<forall>st \<in> set (steps t). isTextEdit st \<Longrightarrow> \<forall>st \<in> set (steps t'). isTextEdit st"
  by (auto simp add: tr_insertText_def isTextEdit_def split: if_splits)

lemma apply_part_steps:
  assumes "apply_part m s p = Inr s'" "\<forall>st \<in> set (steps (tr s)). isTextEdit st"
  shows "\<forall>st \<in> set (steps (tr s')). isTextEdit st"
proof (cases "part_op p")
  case DIFF_EQUAL
  with assms show ?thesis by (auto simp add: apply_part_def Let_def)
next
  case DIFF_DELETE
  with assms(1) obtain t' f e where "tr_delete (tr s) f e = Inr t'" "tr s' = t'"
    by (auto simp add: apply_part_def Let_def split: sum.splits)
  with tr_delete_steps assms(2) show ?thesis by blast
next
  case DIFF_INSERT
  with assms(1) obtain t' q where "tr_insertText (tr s) (part_text p) q = Inr t'" "tr s' = t'"
    by (auto simp add: apply_part_def Let_def split: sum.splits)
  with tr_insertText_steps assms(2) show ?thesis by blast
qed

lemma build_steps:
  "build m s ds = Inr s' \<Longrightarrow> \<forall>st \<in> set (steps (tr s)). isTextEdit st \<Longrightarrow>
     \<forall>st \<in> set (steps (tr s')). isTextEdit st"
proof (induction ds arbitrary: s)
  case Nil
  then show ?case by simp
next
  case (Cons p ps)
  from Cons.prems(1) obtain s1 where s1: "apply_part m s p = Inr s1" "build m s1 ps = Inr s'"
    by (auto split: sum.splits)
  from apply_part_steps[OF s1(1) Cons.prems(2)] Cons.IH[OF s1(2)] show ?case by blast
qed

lemma updateClause_text_block:
  assumes rdy: "ready ed"
    and loc: "locate clauseId (doc ed) = Some pos"
    and leaf: "flat (nodeContent (doc ed) pos)"
    and orig: "textOf (nodeContent (doc ed) pos) = original"
    and ne: "fst (buildPositionMap (pos + 1) (nodeContent (doc ed) pos)) \<noteq> []"
    and valid: "validDiff original proposed (calculateWordDiff original proposed)"
    and nodel: "noEmptyDelete (calculateWordDiff original proposed)"
  shows "\<exists>ed' s. updateClause calculateWordDiff ed clauseId proposed = (Inr True, ed')
      \<and> snd (buildPositionMap (pos + 1) (nodeContent (doc ed) pos)) = original
      \<and> build (fst (buildPositionMap (pos + 1) (nodeContent (doc ed) pos))) (initial_build (doc ed))
           (calculateWordDiff original proposed) = Inr s
      \<and> textIndex s = length original
      \<and> locate clauseId (tr_doc (tr s)) = Some pos
      \<and> (\<forall>st \<in> set (steps (tr s)). isTextEdit st)
      \<and> dispatched ed' = dispatched ed
           @ [steps (tr s), [SetNodeMarkup pos ((attrsAt (doc ed) pos)\<lparr>status := ''pending''\<rparr>)]]
      \<and> locate clauseId (doc ed') = Some pos
      \<and> textOf (nodeContent (doc ed') pos) = proposed
      \<and> take pos (doc ed') = take pos (doc ed)
      \<and> drop (pos + 1 + length (nodeContent (doc ed') pos)) (doc ed')
          = drop (pos + 1 + length (nodeContent (doc ed) pos)) (doc ed)
      \<and> status (attrsAt (doc ed') pos) = ''pending''
      \<and> node_id (attrsAt (doc ed') pos) = Some clauseId"
proof -
  let ?D = "doc ed"
  let ?C = "nodeContent ?D pos"
  let ?A = "take (pos + 1) ?D"
  let ?R = "drop (pos + 1 + length ?C) ?D"
  let ?m = "fst (buildPositionMap (pos + 1) ?C)"
  let ?ds = "calculateWordDiff original proposed"
  from locate_Some[OF loc] obtain a where p: "pos < length ?D" and a: "?D ! pos = Open a"
    and ida: "node_id a = Some clauseId" by blast
  note dec = node_decomposition[OF p]
  have lenA: "length ?A = pos + 1" by (rule dec(2))
  have D: "?D = ?A @ ?C @ ?R" by (rule dec(1))
  have tne: "textOf ?C \<noteq> []"
    using ne buildPositionMap_length[of "pos + 1" ?C] by auto
  have buf: "snd (buildPositionMap (pos + 1) ?C) = original"
    using orig by (simp add: buildPositionMap_snd)
  have syn0: "synced ?A ?C ?R (initial_build ?D) []"
    using synced_initial[OF tne, of ?A ?R] D by simp
  have o: "original_of ?ds = drop (textIndex (initial_build ?D)) (textOf ?C)"
    using valid orig by (simp add: validDiff_def initial_build_def)
  have dl: "\<forall>d \<in> set ?ds. part_op d = DIFF_DELETE \<longrightarrow> part_text d \<noteq> []"
    using nodel by (simp add: noEmptyDelete_def)
  from build_synced[OF syn0 tne o dl] obtain s where
    bld: "build (fst (buildPositionMap (length ?A) ?C)) (initial_build ?D) ?ds = Inr s"
    and syn: "synced ?A ?C ?R s ([] @ proposed_of ?ds)" and ti: "textIndex s = length (textOf ?C)"
    by blast
  have bld': "build ?m (initial_build ?D) ?ds = Inr s" using bld lenA by simp
  from synced_final[OF syn ti tne] leaf obtain X where
    X: "tr_doc (tr s) = ?A @ X @ ?R" and tX: "textOf X = proposed" and fX: "flat X"
    using valid by (auto simp add: validDiff_def)
  have loc3: "locate clauseId (tr_doc (tr s)) = Some pos"
    unfolding X using loc D locate_after_edit[of clauseId ?A ?C ?R pos X] leaf fX lenA
    by (metis less_add_one)
  have cR: "contentOf 0 ?R = []"
  proof -
    have "?C = contentOf 0 (?C @ ?R)"
      using D lenA by (metis append_eq_conv_conj nodeContent_def)
    then show ?thesis using contentOf_flat_append[OF leaf, of 0 ?R] by simp
  qed
  have at3: "tr_doc (tr s) ! pos = Open a"
    unfolding X using a p lenA by (simp add: nth_append)
  let ?a' = "a\<lparr>status := ''pending''\<rparr>"
  let ?F = "(tr_doc (tr s))[pos := Open ?a']"
  have attrs0: "attrsAt ?D pos = a" using a by (simp add: attrsAt_def)
  have attrs3: "attrsAt (tr_doc (tr s)) pos = a" using at3 by (simp add: attrsAt_def)
  have p3: "pos < length (tr_doc (tr s))" unfolding X using lenA by simp
  have F: "?F = (?A[pos := Open ?a']) @ X @ ?R"
    unfolding X using lenA by (simp add: list_update_append)
  have lenA': "length (?A[pos := Open ?a']) = pos + 1" using lenA by simp
  have contF: "nodeContent ?F pos = X"
  proof -
    have dF: "drop (pos + 1) ?F = X @ ?R" unfolding F using lenA' by simp
    have "nodeContent ?F pos = contentOf 0 (drop (pos + 1) ?F)" by (rule nodeContent_def)
    also have "\<dots> = contentOf 0 (X @ ?R)" by (simp only: dF)
    also have "\<dots> = X @ contentOf 0 ?R" by (rule contentOf_flat_append[OF fX])
    also have "\<dots> = X" by (simp only: cR append_Nil2)
    finally show ?thesis .
  qed
  have locF: "locate clauseId ?F = Some pos"
    using locate_update_status[OF p3 at3] loc3 by simp
  have takeF: "take pos ?F = take pos ?D"
  proof -
    have "take pos ?F = take pos (?A[pos := Open ?a'])" unfolding F using lenA' by simp
    also have "\<dots> = take pos ?A" by simp
    also have "\<dots> = take pos ?D" by (simp add: min_def)
    finally show ?thesis .
  qed
  have dropF: "drop (pos + 1 + length X) ?F = ?R"
    unfolding F using lenA' by simp
  have atF: "attrsAt ?F pos = ?a'" using p3 by (simp add: attrsAt_def)
  let ?ed1 = "logc [ConsoleGroup (''[Diffing] Update Block '' @ clauseId)] ed"
  let ?ed2 = "enableTrackChanges ?ed1"
  let ?ed3 = "dispatch (tr s) ?ed2"
  let ?finalTr = "tr_setNodeMarkup \<lparr>tr_doc = doc ?ed3, steps = []\<rparr> pos ((attrsAt (doc ?ed3) pos)\<lparr>status := ''pending''\<rparr>)"
  let ?ed' = "logc [ConsoleGroupEnd] (dispatch ?finalTr ?ed3)"
  have d3: "doc ?ed3 = tr_doc (tr s)" by (simp add: dispatch_def)
  have upd: "updateClause calculateWordDiff ed clauseId proposed = (Inr True, ?ed')"
    unfolding updateClause_def
    using rdy loc ne buf bld' loc3
    by (simp add: logc_def Let_def split_beta initial_build_def dispatch_def)
  have docF: "doc ?ed' = ?F"
    by (simp add: logc_def dispatch_def tr_setNodeMarkup_def attrs3)
  have disp: "dispatched ?ed' = dispatched ed
           @ [steps (tr s), [SetNodeMarkup pos ((attrsAt ?D pos)\<lparr>status := ''pending''\<rparr>)]]"
    by (simp add: logc_def dispatch_def tr_setNodeMarkup_def attrs3 attrs0)
  have edits: "\<forall>st \<in> set (steps (tr s)). isTextEdit st"
    using build_steps[OF bld'] by (simp add: initial_build_def)
  show ?thesis
    apply (rule exI[of _ ?ed'], rule exI[of _ s])
    unfolding docF contF
    using upd buf bld' ti orig edits disp locF tX takeF dropF atF ida loc3
    by simp
qed

subsection \<open>The example documents\<close>

lemma liability_locate: "locate ''c1'' liability_doc = Some 0"
  by (simp add: locate_def liability_doc_def scan_step_def clause_attrs_def other_attrs_def)

lemma liability_content:
  "nodeContent liability_doc 0 = [Struct] @ map Chr ''Liability is '' @ [Struct, Struct]
     @ map Chr ''unlimited.'' @ [Struct]"
  by (simp add: nodeContent_def liability_doc_def)

lemma liability_text: "textOf (nodeContent liability_doc 0) = ''Liability is unlimited.''"
  by (simp add: liability_content)

lemma liability_flat: "flat (nodeContent liability_doc 0)"
  by (simp add: liability_content flat_def)

lemma liability_valid:
  "validDiff ''Liability is unlimited.'' ''Liability is capped at fees paid.''
     (liability_diff ''Liability is unlimited.'' ''Liability is capped at fees paid.'')"
  by (simp add: validDiff_def liability_diff_def)

lemma liability_map_nonempty: "fst (buildPositionMap (0 + 1) (nodeContent liability_doc 0)) \<noteq> []"
  by (simp add: liability_content)

subsection \<open>Runs that return or throw\<close>

lemma textOf_Nil_iff: "textOf ts = [] \<longleftrightarrow> (\<forall>c. Chr c \<notin> set ts)"
  by (induction ts rule: textOf.induct) auto

lemma updateClause_success:
  assumes "updateClause df ed clauseId newText = (Inr True, ed')"
  shows "\<exists>pos s. ready ed \<and> locate clauseId (doc ed) = Some pos
     \<and> build (fst (buildPositionMap (pos + 1) (nodeContent (doc ed) pos))) (initial_build (doc ed))
          (df (snd (buildPositionMap (pos + 1) (nodeContent (doc ed) pos))) newText) = Inr s
     \<and> (case locate clauseId (tr_doc (tr s)) of
          None \<Rightarrow> ed' = logc [ConsoleGroupEnd] (dispatch (tr s)
                   (enableTrackChanges (logc [ConsoleGroup (''[Diffing] Update Block '' @ clauseId)] ed)))
        | Some newPos \<Rightarrow>
            ed' = logc [ConsoleGroupEnd]
                   (dispatch (tr_setNodeMarkup \<lparr>tr_doc = tr_doc (tr s), steps = []\<rparr> newPos
                               ((attrsAt (tr_doc (tr s)) newPos)\<lparr>status := ''pending''\<rparr>))
                     (dispatch (tr s)
                       (enableTrackChanges (logc [ConsoleGroup (''[Diffing] Update Block '' @ clauseId)] ed)))))"
proof -
  from assms have rdy: "ready ed" by (auto simp add: updateClause_def split: if_splits)
  from assms rdy obtain pos where loc: "locate clauseId (doc ed) = Some pos"
    by (cases "locate clauseId (doc ed)") (auto simp add: updateClause_def logc_def Let_def)
  let ?m = "fst (buildPositionMap (pos + 1) (nodeContent (doc ed) pos))"
  let ?b = "snd (buildPositionMap (pos + 1) (nodeContent (doc ed) pos))"
  from assms rdy loc have ne: "?m \<noteq> []"
    by (auto simp add: updateClause_def logc_def Let_def split_beta split: if_splits)
  from assms rdy loc ne obtain s where
    bld: "build ?m (initial_build (doc ed)) (df ?b newText) = Inr s"
    by (cases "build ?m (initial_build (doc ed)) (df ?b newText)")
       (auto simp add: updateClause_def logc_def Let_def split_beta initial_build_def)
  show ?thesis
    using assms rdy loc ne bld
    by (intro exI[of _ pos] exI[of _ s])
       (auto simp add: updateClause_def logc_def Let_def split_beta initial_build_def dispatch_def
          split: option.splits)
qed

lemma updateClause_exception:
  assumes "updateClause df ed clauseId newText = (Inl e, ed')"
  shows "ed' = enableTrackChanges (logc [ConsoleGroup (''[Diffing] Update Block '' @ clauseId)] ed)"
  using assms
  by (auto simp add: updateClause_def Let_def split_beta split: if_splits option.splits sum.splits)

lemma build_textIndex:
  "build m s ds = Inr s' \<Longrightarrow> textIndex s' = textIndex s + length (original_of ds)"
proof (induction ds arbitrary: s)
  case Nil
  then show ?case by simp
next
  case (Cons p ps)
  from Cons.prems obtain s1 where s1: "apply_part m s p = Inr s1" "build m s1 ps = Inr s'"
    by (auto split: sum.splits)
  from s1(1) have "textIndex s1 = textIndex s + (if part_op p = DIFF_INSERT then 0 else length (part_text p))"
    by (cases "part_op p") (auto simp add: apply_part_def Let_def split: sum.splits)
  with Cons.IH[OF s1(2)] show ?case by simp
qed

subsection \<open>The runs on the example documents\<close>

lemma liability_nodel: "noEmptyDelete (liability_diff a b)"
  by (simp add: noEmptyDelete_def liability_diff_def)

lemma liability_hyps:
  "ready liability_editor" "locate ''c1'' (doc liability_editor) = Some 0"
  "flat (nodeContent (doc liability_editor) 0)"
  "textOf (nodeContent (doc liability_editor) 0) = unlimited"
  "fst (buildPositionMap (0 + 1) (nodeContent (doc liability_editor) 0)) \<noteq> []"
  "validDiff unlimited capped (liability_diff unlimited capped)"
  "noEmptyDelete (liability_diff unlimited capped)"
  using liability_locate liability_flat liability_text liability_map_nonempty liability_valid
    liability_nodel
  by (simp_all add: liability_editor_def unlimited_def capped_def)

lemma liability_map:
  "buildPositionMap (Suc 0) (nodeContent liability_doc 0)
     = ([2, 3, 4, 5, 6, 7, 8, 9, 10, 11, 12, 13, 14, 17, 18, 19, 20, 21, 22, 23, 24, 25, 26], unlimited)"
  by (simp add: liability_content unlimited_def)

lemma heading_locate: "locate ''c1'' heading_doc = Some 0"
  by (simp add: locate_def heading_doc_def scan_step_def clause_attrs_def other_attrs_def)

lemma heading_content: "nodeContent heading_doc 0 = [Struct, Struct]"
  by (simp add: nodeContent_def heading_doc_def)

lemma stale_build:
  "build [2, 3, 4, 5, 6, 7, 8, 9, 10, 11, 12, 13, 14, 17, 18, 19, 20, 21, 22, 23, 24, 25, 26]
      \<lparr>tr = \<lparr>tr_doc = liability_doc, steps = []\<rparr>, textIndex = 0, mapOffset = 0\<rparr>
      (stale_diff unlimited capped)
   = Inr \<lparr>tr = \<lparr>tr_doc = [Open clause_attrs, Struct] @ map Chr ''Liability is '' @ [Struct, Struct]
                    @ map Chr ''not unlimited.''
                    @ [Struct, Close, Open other_attrs, Struct, Chr (CHR ''x''), Struct, Close],
                 steps = [InsertTextStep ''not '' 17]\<rparr>,
           textIndex = 13, mapOffset = 4\<rparr>"
  by (simp add: stale_diff_def apply_part_def Let_def tr_insertText_def liability_doc_def)

lemma stale_locate:
  "locate ''c1'' ([Open clause_attrs, Struct] @ map Chr ''Liability is '' @ [Struct, Struct]
                    @ map Chr ''not unlimited.''
                    @ [Struct, Close, Open other_attrs, Struct, Chr (CHR ''x''), Struct, Close]) = Some 0"
  by (simp add: locate_def scan_step_def clause_attrs_def other_attrs_def)

lemma stale_run:
  "updateClause stale_diff liability_editor ''c1'' capped
   = (Inr True,
      liability_editor\<lparr>
       doc := [Open (clause_attrs\<lparr>status := ''pending''\<rparr>), Struct] @ map Chr ''Liability is ''
              @ [Struct, Struct] @ map Chr ''not unlimited.''
              @ [Struct, Close, Open other_attrs, Struct, Chr (CHR ''x''), Struct, Close],
       mode := ''suggesting'',
       console := [ConsoleGroup ''[Diffing] Update Block c1'', ConsoleGroupEnd],
       dispatched := [[InsertTextStep ''not '' 17],
                      [SetNodeMarkup 0 (clause_attrs\<lparr>status := ''pending''\<rparr>)]]\<rparr>)"
  unfolding updateClause_def
  using stale_build stale_locate
  by (simp add: liability_editor_def logc_def liability_locate liability_map Let_def
      dispatch_def tr_setNodeMarkup_def attrsAt_def enableTrackChanges_def)

lemma overrun_run:
  "updateClause overrun_diff liability_editor ''c1'' capped
   = (Inl RangeError,
      liability_editor\<lparr>mode := ''suggesting'',
        console := [ConsoleGroup ''[Diffing] Update Block c1'']\<rparr>)"
  unfolding updateClause_def
  by (simp add: liability_editor_def logc_def liability_locate liability_map Let_def
      overrun_diff_def apply_part_def jsIndex_def tr_delete_def enableTrackChanges_def)

lemma faulty_hyps:
  "ready faulty_editor" "locate ''c1'' (doc faulty_editor) = Some 0"
  "flat (nodeContent (doc faulty_editor) 0)"
  "textOf (nodeContent (doc faulty_editor) 0) = unlimited"
  "fst (buildPositionMap (0 + 1) (nodeContent (doc faulty_editor) 0)) \<noteq> []"
  using liability_hyps(1-5) by (simp_all add: faulty_editor_def)










subsection \<open>The claims on updateClause\<close>

text \<open>
  Claim C5 (empty position map refusal).  For a block that contains no text leaves the position
  map built by \<open>updateClause\<close> is empty, and the call refuses to patch: it dispatches no
  transaction, leaves the document unchanged, reports the error \<open>No text in block\<close> on the
  console, and returns \<open>false\<close> instead of throwing.  Before that the console holds the group
  header and, when the switch to track changes threw, the error of its \<open>catch\<close>.
\<close>

theorem updateClause_no_text:
  assumes "ready ed" "locate clauseId (doc ed) = Some pos"
    and "\<forall>c. Chr c \<notin> set (nodeContent (doc ed) pos)"
  shows "fst (buildPositionMap (pos + 1) (nodeContent (doc ed) pos)) = []
    \<and> (\<exists>ed'. updateClause calculateWordDiff ed clauseId newText = (Inr False, ed')
          \<and> doc ed' = doc ed \<and> dispatched ed' = dispatched ed
          \<and> console ed' = console ed @ [ConsoleGroup (''[Diffing] Update Block '' @ clauseId)]
                @ trackChangesErrors ed @ [ConsoleError ''No text in block'', ConsoleGroupEnd])"
proof -
  from assms(3) have "textOf (nodeContent (doc ed) pos) = []" by (simp add: textOf_Nil_iff)
  then have m: "fst (buildPositionMap (pos + 1) (nodeContent (doc ed) pos)) = []"
    using buildPositionMap_length[of "pos + 1" "nodeContent (doc ed) pos"] by simp
  then show ?thesis
    using assms(1,2) by (simp add: updateClause_def logc_def Let_def split_beta)
qed

theorem updateClause_no_text_witness:
  "ready heading_editor \<and> locate ''c1'' (doc heading_editor) = Some 0
   \<and> nodeContent (doc heading_editor) 0 = [Struct, Struct]
   \<and> fst (buildPositionMap 1 (nodeContent (doc heading_editor) 0)) = []
   \<and> updateClause liability_diff heading_editor ''c1'' capped
       = (Inr False, heading_editor\<lparr>mode := ''suggesting'',
            console := [ConsoleGroup ''[Diffing] Update Block c1'', ConsoleError ''No text in block'',
                        ConsoleGroupEnd]\<rparr>)"
proof -
  have r: "ready heading_editor" by (simp add: heading_editor_def)
  have l: "locate ''c1'' (doc heading_editor) = Some 0"
    using heading_locate by (simp add: heading_editor_def)
  have c: "nodeContent (doc heading_editor) 0 = [Struct, Struct]"
    using heading_content by (simp add: heading_editor_def)
  have n: "\<forall>c. Chr c \<notin> set (nodeContent (doc heading_editor) 0)"
    by (simp add: c)
  from updateClause_no_text[where calculateWordDiff = liability_diff and newText = capped, OF r l n]
  obtain ed' where m: "fst (buildPositionMap (0 + 1) (nodeContent (doc heading_editor) 0)) = []"
    and u: "updateClause liability_diff heading_editor ''c1'' capped = (Inr False, ed')"
    by (elim exE conjE)
  have "updateClause liability_diff heading_editor ''c1'' capped
       = (Inr False, heading_editor\<lparr>mode := ''suggesting'',
            console := [ConsoleGroup ''[Diffing] Update Block c1'', ConsoleError ''No text in block'',
                        ConsoleGroupEnd]\<rparr>)"
    by (simp add: updateClause_def heading_locate heading_content Let_def logc_def heading_editor_def
        enableTrackChanges_def)
  with r l c m show ?thesis by simp
qed

text \<open>
  Claim C7 (status update by identity).  In a run of \<open>updateClause\<close> that returns \<open>true\<close>, the
  transaction of the text edits is dispatched first; the block is then looked up again by its
  identifier in the document that this transaction produced, and a second transaction of its
  own sets the status of the node found there to \<open>pending\<close>, keeping its other attributes.
  The position recorded before the edits is not used.
\<close>

theorem updateClause_status_by_identity:
  assumes "updateClause calculateWordDiff ed clauseId newText = (Inr True, ed')"
  shows "\<exists>pos s. locate clauseId (doc ed) = Some pos
     \<and> build (fst (buildPositionMap (pos + 1) (nodeContent (doc ed) pos))) (initial_build (doc ed))
          (calculateWordDiff (snd (buildPositionMap (pos + 1) (nodeContent (doc ed) pos))) newText) = Inr s
     \<and> (case locate clauseId (tr_doc (tr s)) of
          None \<Rightarrow> dispatched ed' = dispatched ed @ [steps (tr s)] \<and> doc ed' = tr_doc (tr s)
        | Some newPos \<Rightarrow>
            newPos < length (tr_doc (tr s))
            \<and> (\<exists>a. tr_doc (tr s) ! newPos = Open a \<and> node_id a = Some clauseId
                  \<and> dispatched ed' = dispatched ed
                       @ [steps (tr s), [SetNodeMarkup newPos (a\<lparr>status := ''pending''\<rparr>)]]
                  \<and> doc ed' = (tr_doc (tr s))[newPos := Open (a\<lparr>status := ''pending''\<rparr>)]))"
proof -
  from updateClause_success[OF assms] obtain pos s where
    loc: "locate clauseId (doc ed) = Some pos"
    and bld: "build (fst (buildPositionMap (pos + 1) (nodeContent (doc ed) pos))) (initial_build (doc ed))
          (calculateWordDiff (snd (buildPositionMap (pos + 1) (nodeContent (doc ed) pos))) newText) = Inr s"
    and fin: "case locate clauseId (tr_doc (tr s)) of
          None \<Rightarrow> ed' = logc [ConsoleGroupEnd] (dispatch (tr s)
                   (enableTrackChanges (logc [ConsoleGroup (''[Diffing] Update Block '' @ clauseId)] ed)))
        | Some newPos \<Rightarrow>
            ed' = logc [ConsoleGroupEnd]
                   (dispatch (tr_setNodeMarkup \<lparr>tr_doc = tr_doc (tr s), steps = []\<rparr> newPos
                               ((attrsAt (tr_doc (tr s)) newPos)\<lparr>status := ''pending''\<rparr>))
                     (dispatch (tr s)
                       (enableTrackChanges (logc [ConsoleGroup (''[Diffing] Update Block '' @ clauseId)] ed))))"
    by blast
  have "case locate clauseId (tr_doc (tr s)) of
          None \<Rightarrow> dispatched ed' = dispatched ed @ [steps (tr s)] \<and> doc ed' = tr_doc (tr s)
        | Some newPos \<Rightarrow>
            newPos < length (tr_doc (tr s))
            \<and> (\<exists>a. tr_doc (tr s) ! newPos = Open a \<and> node_id a = Some clauseId
                  \<and> dispatched ed' = dispatched ed
                       @ [steps (tr s), [SetNodeMarkup newPos (a\<lparr>status := ''pending''\<rparr>)]]
                  \<and> doc ed' = (tr_doc (tr s))[newPos := Open (a\<lparr>status := ''pending''\<rparr>)])"
  proof (cases "locate clauseId (tr_doc (tr s))")
    case None
    with fin show ?thesis by (simp add: logc_def dispatch_def)
  next
    case (Some newPos)
    from locate_Some[OF Some] obtain a where
      a: "newPos < length (tr_doc (tr s))" "tr_doc (tr s) ! newPos = Open a" "node_id a = Some clauseId"
      by blast
    then have "attrsAt (tr_doc (tr s)) newPos = a" by (simp add: attrsAt_def)
    with fin Some a show ?thesis
      by (simp add: logc_def dispatch_def tr_setNodeMarkup_def)
  qed
  with loc bld show ?thesis by blast
qed

theorem updateClause_status_by_identity_witness:
  "fst (updateClause liability_diff liability_editor ''c1'' capped) = Inr True
   \<and> (\<exists>a. doc (snd (updateClause liability_diff liability_editor ''c1'' capped)) ! 0
            = Open (a\<lparr>status := ''pending''\<rparr>) \<and> node_id a = Some ''c1'')
   \<and> length (dispatched (snd (updateClause liability_diff liability_editor ''c1'' capped))) = 2"
proof -
  let ?ed' = "snd (updateClause liability_diff liability_editor ''c1'' capped)"
  from updateClause_text_block[where ed = liability_editor and clauseId = "''c1''" and pos = 0
      and original = unlimited and proposed = capped
      and calculateWordDiff = liability_diff, OF liability_hyps]
  obtain ed1 and s1 :: build_state where
    run: "updateClause liability_diff liability_editor ''c1'' capped = (Inr True, ed1)"
    and buf: "snd (buildPositionMap (0 + 1) (nodeContent (doc liability_editor) 0)) = unlimited"
    and b1: "build (fst (buildPositionMap (0 + 1) (nodeContent (doc liability_editor) 0)))
               (initial_build (doc liability_editor)) (liability_diff unlimited capped) = Inr s1"
    and l1: "locate ''c1'' (tr_doc (tr s1)) = Some 0"
    by (elim exE conjE)
  have run': "updateClause liability_diff liability_editor ''c1'' capped = (Inr True, ?ed')"
    by (simp add: run)
  from updateClause_status_by_identity[OF run'] obtain pos and s :: build_state where
    lp: "locate ''c1'' (doc liability_editor) = Some pos"
    and b: "build (fst (buildPositionMap (pos + 1) (nodeContent (doc liability_editor) pos)))
              (initial_build (doc liability_editor))
              (liability_diff (snd (buildPositionMap (pos + 1) (nodeContent (doc liability_editor) pos)))
                 capped) = Inr s"
    and c: "case locate ''c1'' (tr_doc (tr s)) of
          None \<Rightarrow> dispatched ?ed' = dispatched liability_editor @ [steps (tr s)] \<and> doc ?ed' = tr_doc (tr s)
        | Some newPos \<Rightarrow>
            newPos < length (tr_doc (tr s))
            \<and> (\<exists>a. tr_doc (tr s) ! newPos = Open a \<and> node_id a = Some ''c1''
                  \<and> dispatched ?ed' = dispatched liability_editor
                       @ [steps (tr s), [SetNodeMarkup newPos (a\<lparr>status := ''pending''\<rparr>)]]
                  \<and> doc ?ed' = (tr_doc (tr s))[newPos := Open (a\<lparr>status := ''pending''\<rparr>)])"
    by (elim exE conjE)
  have p0: "pos = 0" using lp liability_hyps(2) by simp
  have ss: "s = s1" using b b1 buf by (simp add: p0)
  from c obtain a where lt: "0 < length (tr_doc (tr s))" and na: "node_id a = Some ''c1''"
    and dd: "dispatched ?ed' = dispatched liability_editor
                       @ [steps (tr s), [SetNodeMarkup 0 (a\<lparr>status := ''pending''\<rparr>)]]"
    and de: "doc ?ed' = (tr_doc (tr s))[0 := Open (a\<lparr>status := ''pending''\<rparr>)]"
    by (auto simp add: ss l1)
  have "doc ?ed' ! 0 = Open (a\<lparr>status := ''pending''\<rparr>)" using de lt by simp
  moreover have "length (dispatched ?ed') = 2" using dd by (simp add: liability_editor_def)
  ultimately show ?thesis using na run by auto
qed

text \<open>
  Claim C6 as stated does not hold of \<open>updateClause\<close> with the diff primitive as a parameter.
  With a diff that accounts for 13 of the 23 characters of the block, the loop ends with the
  text cursor at 13, the call returns \<open>true\<close>, and the console holds no warning and no error.
\<close>

theorem updateClause_desync_counterexample:
  "snd (buildPositionMap 1 (nodeContent (doc liability_editor) 0)) = unlimited
   \<and> length unlimited = 23
   \<and> textIndex (projr (build (fst (buildPositionMap 1 (nodeContent (doc liability_editor) 0)))
                          (initial_build (doc liability_editor)) (stale_diff unlimited capped))) = 13
   \<and> fst (updateClause stale_diff liability_editor ''c1'' capped) = Inr True
   \<and> console (snd (updateClause stale_diff liability_editor ''c1'' capped))
       = [ConsoleGroup ''[Diffing] Update Block c1'', ConsoleGroupEnd]
   \<and> warnings (console (snd (updateClause stale_diff liability_editor ''c1'' capped))) = []"
proof -
  have d: "doc liability_editor = liability_doc" by (simp add: liability_editor_def)
  show ?thesis
    by (simp add: d liability_map stale_build initial_build_def stale_run warnings_def isWarning_def)
       (simp add: unlimited_def)
qed

text \<open>
  Claim C6, as amended, with the diff primitive as a parameter.  \<open>updateClause\<close> does not compare
  the final text cursor with the length of the original text, and writes nothing about it.
  What a run that returns \<open>true\<close> adds to the console is the group header, the error of the
  switch to track changes when that switch threw, and the end of the group, whatever the final
  cursor is.  A run that the engine interrupts with a range error dispatches nothing, leaves
  the document unchanged and adds the group header and that same error only; the exception is
  the only report.  A diff that obeys the invariant of the diff segments cannot end the loop
  with a cursor different from the length of the original text.
\<close>

theorem updateClause_no_integrity_check:
  assumes "updateClause calculateWordDiff ed clauseId newText = (r, ed')"
  shows "(r = Inr True \<longrightarrow>
            console ed' = console ed @ [ConsoleGroup (''[Diffing] Update Block '' @ clauseId)]
               @ trackChangesErrors ed @ [ConsoleGroupEnd])
    \<and> (\<forall>e. r = Inl e \<longrightarrow>
          doc ed' = doc ed \<and> dispatched ed' = dispatched ed
          \<and> console ed' = console ed @ [ConsoleGroup (''[Diffing] Update Block '' @ clauseId)]
               @ trackChangesErrors ed)
    \<and> (\<forall>pos s. locate clauseId (doc ed) = Some pos
          \<and> validDiff (snd (buildPositionMap (pos + 1) (nodeContent (doc ed) pos))) newText
               (calculateWordDiff (snd (buildPositionMap (pos + 1) (nodeContent (doc ed) pos))) newText)
          \<and> build (fst (buildPositionMap (pos + 1) (nodeContent (doc ed) pos))) (initial_build (doc ed))
               (calculateWordDiff (snd (buildPositionMap (pos + 1) (nodeContent (doc ed) pos))) newText)
              = Inr s
          \<longrightarrow> textIndex s = length (snd (buildPositionMap (pos + 1) (nodeContent (doc ed) pos))))"
proof -
  have ok: "console ed' = console ed @ [ConsoleGroup (''[Diffing] Update Block '' @ clauseId)]
               @ trackChangesErrors ed @ [ConsoleGroupEnd]" if "r = Inr True"
  proof -
    from that assms have u: "updateClause calculateWordDiff ed clauseId newText = (Inr True, ed')"
      by simp
    from updateClause_success[OF u] obtain s :: build_state where
      "case locate clauseId (tr_doc (tr s)) of
          None \<Rightarrow> ed' = logc [ConsoleGroupEnd] (dispatch (tr s)
                   (enableTrackChanges (logc [ConsoleGroup (''[Diffing] Update Block '' @ clauseId)] ed)))
        | Some newPos \<Rightarrow>
            ed' = logc [ConsoleGroupEnd]
                   (dispatch (tr_setNodeMarkup \<lparr>tr_doc = tr_doc (tr s), steps = []\<rparr> newPos
                               ((attrsAt (tr_doc (tr s)) newPos)\<lparr>status := ''pending''\<rparr>))
                     (dispatch (tr s)
                       (enableTrackChanges (logc [ConsoleGroup (''[Diffing] Update Block '' @ clauseId)] ed))))"
      by blast
    then show ?thesis
      by (cases "locate clauseId (tr_doc (tr s))") (simp_all add: logc_def dispatch_def)
  qed
  have ex: "doc ed' = doc ed \<and> dispatched ed' = dispatched ed
          \<and> console ed' = console ed @ [ConsoleGroup (''[Diffing] Update Block '' @ clauseId)]
               @ trackChangesErrors ed" if "r = Inl e" for e
  proof -
    from that assms have u: "updateClause calculateWordDiff ed clauseId newText = (Inl e, ed')"
      by simp
    from updateClause_exception[OF u] show ?thesis by (simp add: logc_def)
  qed
  have sync: "textIndex s = length (snd (buildPositionMap (pos + 1) (nodeContent (doc ed) pos)))"
    if "validDiff (snd (buildPositionMap (pos + 1) (nodeContent (doc ed) pos))) newText
               (calculateWordDiff (snd (buildPositionMap (pos + 1) (nodeContent (doc ed) pos))) newText)"
      and "build (fst (buildPositionMap (pos + 1) (nodeContent (doc ed) pos))) (initial_build (doc ed))
               (calculateWordDiff (snd (buildPositionMap (pos + 1) (nodeContent (doc ed) pos))) newText)
              = Inr s"
    for pos s
    using build_textIndex[OF that(2)] that(1) by (simp add: validDiff_def initial_build_def)
  from ok ex sync show ?thesis by blast
qed

theorem updateClause_no_integrity_check_witness:
  "fst (updateClause stale_diff liability_editor ''c1'' capped) = Inr True
   \<and> console (snd (updateClause stale_diff liability_editor ''c1'' capped))
       = [ConsoleGroup ''[Diffing] Update Block c1'', ConsoleGroupEnd]
   \<and> fst (updateClause liability_diff faulty_editor ''c1'' capped) = Inr True
   \<and> console (snd (updateClause liability_diff faulty_editor ''c1'' capped))
       = [ConsoleGroup ''[Diffing] Update Block c1'', ConsoleError ''Track changes error:'',
          ConsoleGroupEnd]
   \<and> fst (updateClause overrun_diff liability_editor ''c1'' capped) = Inl RangeError
   \<and> doc (snd (updateClause overrun_diff liability_editor ''c1'' capped)) = doc liability_editor
   \<and> dispatched (snd (updateClause overrun_diff liability_editor ''c1'' capped)) = []
   \<and> console (snd (updateClause overrun_diff liability_editor ''c1'' capped))
       = [ConsoleGroup ''[Diffing] Update Block c1'']
   \<and> validDiff unlimited capped (liability_diff unlimited capped)
   \<and> textIndex (projr (build (fst (buildPositionMap 1 (nodeContent (doc liability_editor) 0)))
                          (initial_build (doc liability_editor)) (liability_diff unlimited capped)))
       = length unlimited"
proof -
  have a: "updateClause stale_diff liability_editor ''c1'' capped
      = (Inr True, snd (updateClause stale_diff liability_editor ''c1'' capped))"
    by (simp add: stale_run)
  have b: "updateClause overrun_diff liability_editor ''c1'' capped
      = (Inl RangeError, snd (updateClause overrun_diff liability_editor ''c1'' capped))"
    by (simp add: overrun_run)
  from updateClause_text_block[where ed = faulty_editor and clauseId = "''c1''" and pos = 0
      and original = unlimited and proposed = capped
      and calculateWordDiff = liability_diff, OF faulty_hyps liability_hyps(6,7)]
  obtain edf where "updateClause liability_diff faulty_editor ''c1'' capped = (Inr True, edf)"
    by (elim exE conjE)
  then have c: "updateClause liability_diff faulty_editor ''c1'' capped
      = (Inr True, snd (updateClause liability_diff faulty_editor ''c1'' capped))"
    by simp
  from updateClause_text_block[where ed = liability_editor and clauseId = "''c1''" and pos = 0
      and original = unlimited and proposed = capped
      and calculateWordDiff = liability_diff, OF liability_hyps]
  obtain edl and s :: build_state where
    run: "updateClause liability_diff liability_editor ''c1'' capped = (Inr True, edl)"
    and buf: "snd (buildPositionMap (0 + 1) (nodeContent (doc liability_editor) 0)) = unlimited"
    and bld: "build (fst (buildPositionMap (0 + 1) (nodeContent (doc liability_editor) 0)))
               (initial_build (doc liability_editor)) (liability_diff unlimited capped) = Inr s"
    by (elim exE conjE)
  have e0: "console liability_editor = []" "dispatched liability_editor = []"
    "trackChangesErrors liability_editor = []"
    by (simp_all add: liability_editor_def trackChangesErrors_def)
  have f0: "console faulty_editor = []"
    "trackChangesErrors faulty_editor = [ConsoleError ''Track changes error:'']"
    by (simp_all add: faulty_editor_def liability_editor_def trackChangesErrors_def)
  note A = updateClause_no_integrity_check[OF a]
  note B = updateClause_no_integrity_check[OF b]
  note C = updateClause_no_integrity_check[OF c]
  note D = updateClause_no_integrity_check[where calculateWordDiff = liability_diff
      and ed = liability_editor and clauseId = "''c1''" and newText = capped
      and r = "Inr True" and ed' = edl, OF run]
  from A have 1: "console (snd (updateClause stale_diff liability_editor ''c1'' capped))
       = [ConsoleGroup ''[Diffing] Update Block c1'', ConsoleGroupEnd]"
    by (simp add: e0)
  from C have 2: "console (snd (updateClause liability_diff faulty_editor ''c1'' capped))
       = [ConsoleGroup ''[Diffing] Update Block c1'', ConsoleError ''Track changes error:'',
          ConsoleGroupEnd]"
    by (simp add: f0)
  from B have 3: "doc (snd (updateClause overrun_diff liability_editor ''c1'' capped)) = doc liability_editor"
    "dispatched (snd (updateClause overrun_diff liability_editor ''c1'' capped)) = []"
    "console (snd (updateClause overrun_diff liability_editor ''c1'' capped))
       = [ConsoleGroup ''[Diffing] Update Block c1'']"
    by (simp_all add: e0)
  from D liability_hyps(2,6) buf bld have "textIndex s = length unlimited"
    by (elim conjE allE[of _ 0] allE[of _ s]) simp
  with bld have 4: "textIndex (projr (build (fst (buildPositionMap 1 (nodeContent (doc liability_editor) 0)))
                          (initial_build (doc liability_editor)) (liability_diff unlimited capped)))
       = length unlimited"
    by simp
  have "fst (updateClause stale_diff liability_editor ''c1'' capped) = Inr True"
    "fst (updateClause overrun_diff liability_editor ''c1'' capped) = Inl RangeError"
    "fst (updateClause liability_diff faulty_editor ''c1'' capped) = Inr True"
    using prod.collapse c by (simp_all add: stale_run overrun_run) (metis fst_conv)
  with 1 2 3 4 liability_hyps(6) show ?thesis by simp
qed




end

